theory Spec2Isabelle
  imports Complex_Main
begin

section \<open>The object pool of src/index.ts\<close>

text \<open>
  The class \<open>ObjectPool\<close> keeps mutable instance objects that are shared by reference
  between two arrays and one map. The model therefore has an explicit object store:
  \<open>heap\<close> is the list of all instance objects ever constructed, a reference is an index
  into it, and the arrays and the map hold references. Objects are never removed from
  the store (a disposal closure may keep one alive after it left the pool).

  The four abstract methods are the caller's hooks. Their calls are recorded, in order,
  in the field \<open>hooks\<close>; they are assumed not to call back into the pool. \<open>Create()\<close>
  takes no argument and may return a fresh value at each call: the result of its
  \<open>k\<close>-th call (counting from 0) is \<open>Create k\<close>, a parameter of the model, and
  \<open>create_calls\<close> counts the calls made so far. The closure handed to \<open>Start\<close>
  captures the instance and the use id read at allocation; it is recorded in
  \<open>StartCall\<close> as that pair and run by \<open>dispose\<close>.

  The private fields keep their names without the trailing underscore, which Isabelle
  reserves. The size given to the constructor is a \<open>number\<close>, which need not be an
  integer and may be zero or negative: it is a \<open>real\<close> here. The counters, which start
  at 0 and are only ever incremented, are \<open>nat\<close>.
\<close>

datatype EObjectPoolType = Unbounded | Elastic | Fixed | FailSilent

record 'v IObjectPoolInstance =
  Value :: 'v
  IsActive :: bool
  CreationId :: nat
  UseId :: nat

type_synonym ref = nat

text \<open>The \<open>BindableEvent\<close>: no listener yet, the listener of \<open>Init\<close> connected, or destroyed.\<close>

datatype BindableEvent = Unconnected | Connected | Destroyed

datatype ('v, 'd) hook_call =
    CreateCall 'v
  | StartCall 'v 'd ref nat
  | DisposeCall 'v
  | DestroyCall 'v

datatype error = AssertionFailed string

record ('v, 'd) ObjectPool =
  initial_pool_size :: real
  object_pool_type :: EObjectPoolType
  dispose_event :: BindableEvent
  used_instances_list :: "ref list"
  instances_list :: "ref list"
  creation_id :: nat
  instances_map :: "nat \<rightharpoonup> ref"
  is_destroyed :: bool
  is_started :: bool
  heap :: "'v IObjectPoolInstance list"
  hooks :: "('v, 'd) hook_call list"
  create_calls :: nat
  warnings :: "string list"

text \<open>The constructor: the field initialisers of the class.\<close>

definition new_ObjectPool :: "real \<Rightarrow> EObjectPoolType \<Rightarrow> ('v, 'd) ObjectPool" where
  "new_ObjectPool size0 type0 =
     \<lparr> initial_pool_size = size0,
       object_pool_type = type0,
       dispose_event = Unconnected,
       used_instances_list = [],
       instances_list = [],
       creation_id = 0,
       instances_map = Map.empty,
       is_destroyed = False,
       is_started = False,
       heap = [],
       hooks = [],
       create_calls = 0,
       warnings = [] \<rparr>"

subsection \<open>Arrays\<close>

text \<open>
  The arrays are roblox-ts arrays, that is Luau tables. \<open>indexOf\<close> is the index of the
  first occurrence, or \<open>-1\<close>. \<open>remove\<close> is \<open>table.remove\<close> at the index plus one: it
  deletes the element and shifts the later ones down, and does nothing when the index is
  outside the array (so \<open>xs.remove(xs.indexOf(x))\<close> leaves \<open>xs\<close> as it is when \<open>x\<close> is not
  in it). \<open>push\<close> appends, \<open>pop\<close> takes the last element, \<open>shift\<close> the first; they are
  written with \<open>@\<close>, \<open>last\<close> and \<open>butlast\<close>, and a \<open>case\<close> on the list.
\<close>

fun indexOf :: "'a list \<Rightarrow> 'a \<Rightarrow> int" where
  "indexOf [] x = - 1"
| "indexOf (y # ys) x =
     (if y = x then 0 else (if indexOf ys x < 0 then - 1 else indexOf ys x + 1))"

definition remove_idx :: "'a list \<Rightarrow> int \<Rightarrow> 'a list" where
  "remove_idx xs i =
     (if 0 \<le> i \<and> i < int (length xs) then take (nat i) xs @ drop (nat i + 1) xs else xs)"

subsection \<open>Instances\<close>

definition set_IsActive :: "ref \<Rightarrow> bool \<Rightarrow> ('v, 'd) ObjectPool \<Rightarrow> ('v, 'd) ObjectPool" where
  "set_IsActive r b s = s\<lparr> heap := (heap s)[r := (heap s ! r)\<lparr> IsActive := b \<rparr>] \<rparr>"

definition CreateInstance ::
  "(nat \<Rightarrow> 'v) \<Rightarrow> ('v, 'd) ObjectPool \<Rightarrow> ref \<times> ('v, 'd) ObjectPool" where
  "CreateInstance Create s =
     (let instance_creation_id = creation_id s;
          v = Create (create_calls s);
          r = length (heap s)
      in (r, s\<lparr> creation_id := creation_id s + 1,
                create_calls := create_calls s + 1,
                hooks := hooks s @ [CreateCall v],
                heap := heap s @
                  [\<lparr> Value = v, IsActive = False,
                     CreationId = instance_creation_id, UseId = 0 \<rparr>],
                instances_map := (instances_map s)(instance_creation_id \<mapsto> r) \<rparr>))"

definition DisposeOfInstance :: "ref \<Rightarrow> ('v, 'd) ObjectPool \<Rightarrow> ('v, 'd) ObjectPool" where
  "DisposeOfInstance r s =
     s\<lparr> heap := (heap s)[r := (heap s ! r)\<lparr> UseId := UseId (heap s ! r) + 1, IsActive := False \<rparr>],
        hooks := hooks s @ [DisposeCall (Value (heap s ! r))] \<rparr>"

definition DestroyInstance :: "ref \<Rightarrow> ('v, 'd) ObjectPool \<Rightarrow> ('v, 'd) ObjectPool" where
  "DestroyInstance r s =
     s\<lparr> instances_map := (instances_map s)(CreationId (heap s ! r) := None),
        hooks := hooks s @ [DestroyCall (Value (heap s ! r))],
        instances_list := remove_idx (instances_list s) (indexOf (instances_list s) r) \<rparr>"

definition FreeInstance :: "ref \<Rightarrow> ('v, 'd) ObjectPool \<Rightarrow> ('v, 'd) ObjectPool" where
  "FreeInstance r s =
     (let s1 = s\<lparr> used_instances_list :=
                   remove_idx (used_instances_list s) (indexOf (used_instances_list s) r) \<rparr>;
          s2 = DisposeOfInstance r s1
      in if object_pool_type s2 = Elastic
            \<and> real (length (instances_list s2)) \<ge> initial_pool_size s2
         then DestroyInstance r s2
         else s2\<lparr> instances_list := instances_list s2 @ [r] \<rparr>)"

definition AllocateInstance ::
  "(nat \<Rightarrow> 'v) \<Rightarrow> ('v, 'd) ObjectPool \<Rightarrow> ref option \<times> ('v, 'd) ObjectPool" where
  "AllocateInstance Create s =
     (if instances_list s \<noteq> [] then
        (Some (last (instances_list s)),
         set_IsActive (last (instances_list s)) True
           (s\<lparr> instances_list := butlast (instances_list s),
               used_instances_list := used_instances_list s @ [last (instances_list s)] \<rparr>))
      else if object_pool_type s = FailSilent then (None, s)
      else if object_pool_type s = Fixed then
        (case used_instances_list s of
           [] \<Rightarrow> (None, s\<lparr> warnings := warnings s @ [''Something went wrong''] \<rparr>)
         | used_instance # rest \<Rightarrow>
             (Some used_instance,
              set_IsActive used_instance True
                (DisposeOfInstance used_instance
                  (s\<lparr> used_instances_list := rest @ [used_instance] \<rparr>))))
      else
        (case CreateInstance Create s of
           (new_instance, s1) \<Rightarrow>
             (Some new_instance,
              s1\<lparr> used_instances_list := used_instances_list s1 @ [new_instance] \<rparr>)))"

subsection \<open>Initialisation\<close>

text \<open>
  \<open>for (const _ of $range(lo, hi))\<close> is the numeric loop \<open>for _ = lo, hi do\<close>: its body
  runs for \<open>lo\<close>, \<open>lo + 1\<close>, \<dots> as long as the value is at most \<open>hi\<close>, that is
  \<open>\<lfloor>hi - lo\<rfloor> + 1\<close> times, and not at all when \<open>hi < lo\<close>. The bounds are numbers, not
  only integers.
\<close>

definition range_count :: "real \<Rightarrow> real \<Rightarrow> nat" where
  "range_count lo hi = nat (\<lfloor>hi - lo\<rfloor> + 1)"

fun create_loop :: "(nat \<Rightarrow> 'v) \<Rightarrow> nat \<Rightarrow> ('v, 'd) ObjectPool \<Rightarrow> ('v, 'd) ObjectPool" where
  "create_loop Create 0 s = s"
| "create_loop Create (Suc k) s =
     create_loop Create k
       (case CreateInstance Create s of
          (object_pool_instance, s1) \<Rightarrow>
            s1\<lparr> instances_list := instances_list s1 @ [object_pool_instance] \<rparr>)"

definition Init :: "(nat \<Rightarrow> 'v) \<Rightarrow> ('v, 'd) ObjectPool \<Rightarrow> error + ('v, 'd) ObjectPool" where
  "Init Create s =
     (if is_started s then Inr s
      else if is_destroyed s then Inl (AssertionFailed ''Object pool is destroyed'')
      else if \<not> initial_pool_size s > 0
        then Inl (AssertionFailed ''Initial pool size should be greater than 0'')
      else Inr ((create_loop Create (range_count 0 (initial_pool_size s - 1))
                  (s\<lparr> is_started := True \<rparr>))\<lparr> dispose_event := Connected \<rparr>))"

subsection \<open>Use and the disposal channel\<close>

definition Use ::
  "(nat \<Rightarrow> 'v) \<Rightarrow> 'd \<Rightarrow> ('v, 'd) ObjectPool \<Rightarrow> error + ('v, 'd) ObjectPool" where
  "Use Create start_data s =
     (case (if \<not> is_started s then Init Create s else Inr s) of
        Inl e \<Rightarrow> Inl e
      | Inr s1 \<Rightarrow>
          if is_destroyed s1 then Inl (AssertionFailed ''Object pool is destroyed'')
          else
            (case AllocateInstance Create s1 of
               (None, s2) \<Rightarrow> Inr s2
             | (Some instance, s2) \<Rightarrow>
                 Inr (s2\<lparr> hooks := hooks s2 @
                        [StartCall (Value (heap s2 ! instance)) start_data
                           instance (UseId (heap s2 ! instance))] \<rparr>)))"

text \<open>The listener that \<open>Init\<close> connects to the event.\<close>

definition dispose_listener :: "nat \<Rightarrow> nat \<Rightarrow> ('v, 'd) ObjectPool \<Rightarrow> ('v, 'd) ObjectPool" where
  "dispose_listener cid use_id s =
     (case instances_map s cid of
        None \<Rightarrow> s
      | Some instance \<Rightarrow>
          if UseId (heap s ! instance) \<noteq> use_id then s else FreeInstance instance s)"

text \<open>
  \<open>Fire\<close> on the event: the signal reaches the listener when one is connected. Delivery
  is the application of the listener to the state at the time of delivery; a signal that
  is delivered late is \<open>Fire\<close> applied to a later state.
\<close>

definition Fire :: "nat \<Rightarrow> nat \<Rightarrow> ('v, 'd) ObjectPool \<Rightarrow> ('v, 'd) ObjectPool" where
  "Fire cid use_id s =
     (if dispose_event s = Connected then dispose_listener cid use_id s else s)"

text \<open>The closure that \<open>Use\<close> passes to \<open>Start\<close>, for the instance and use id it captured.\<close>

definition dispose :: "ref \<Rightarrow> nat \<Rightarrow> ('v, 'd) ObjectPool \<Rightarrow> ('v, 'd) ObjectPool" where
  "dispose instance use_id s =
     (if UseId (heap s ! instance) \<noteq> use_id
      then s\<lparr> warnings := warnings s @
                 [''Attemt of disposal when the instance was already disposed''] \<rparr>
      else Fire (CreationId (heap s ! instance)) (UseId (heap s ! instance)) s)"

subsection \<open>Teardown\<close>

text \<open>
  \<open>for (const x of xs)\<close> walks the live array by position (in Luau as in JavaScript): it
  reads the element at position \<open>i\<close> of the array as it is when the step begins, runs the
  body, and goes on to position \<open>i + 1\<close> until that position is past the end. The two
  loops of \<open>DestroyPool\<close> are therefore recursions on the position that read the list
  from the current state. The first walks the Used List, which its body does not change.
  The second walks the Free List, and its body, \<open>DestroyInstance\<close>, removes the element it
  is given from the very array being walked.
\<close>

function destroy_used_loop :: "nat \<Rightarrow> ('v, 'd) ObjectPool \<Rightarrow> ('v, 'd) ObjectPool" where
  "destroy_used_loop i s =
     (if i < length (used_instances_list s)
      then destroy_used_loop (i + 1)
             (DestroyInstance (used_instances_list s ! i)
               (DisposeOfInstance (used_instances_list s ! i) s))
      else s)"
  by pat_completeness auto
termination
  by (relation "measure (\<lambda>(i, s). length (used_instances_list s) - i)")
     (auto simp: DestroyInstance_def DisposeOfInstance_def)

declare destroy_used_loop.simps [simp del]

function destroy_free_loop :: "nat \<Rightarrow> ('v, 'd) ObjectPool \<Rightarrow> ('v, 'd) ObjectPool" where
  "destroy_free_loop i s =
     (if i < length (instances_list s)
      then destroy_free_loop (i + 1) (DestroyInstance (instances_list s ! i) s)
      else s)"
  by pat_completeness auto
termination
  by (relation "measure (\<lambda>(i, s). length (instances_list s) - i)")
     (auto simp: DestroyInstance_def remove_idx_def)

declare destroy_free_loop.simps [simp del]

definition DestroyPool :: "('v, 'd) ObjectPool \<Rightarrow> ('v, 'd) ObjectPool" where
  "DestroyPool s =
     (if is_destroyed s then s
      else (destroy_free_loop 0 (destroy_used_loop 0 s))
             \<lparr> dispose_event := Destroyed,
               used_instances_list := [],
               instances_list := [],
               is_destroyed := True \<rparr>)"

subsection \<open>Sequences of calls\<close>

text \<open>Overlapping uses: \<open>Use\<close> called once for each start datum, with no disposal in between.\<close>

fun uses ::
  "(nat \<Rightarrow> 'v) \<Rightarrow> 'd list \<Rightarrow> ('v, 'd) ObjectPool \<Rightarrow> error + ('v, 'd) ObjectPool" where
  "uses Create [] s = Inr s"
| "uses Create (d # ds) s =
     (case Use Create d s of Inl e \<Rightarrow> Inl e | Inr s1 \<Rightarrow> uses Create ds s1)"

subsection \<open>Reachable states and the registry invariant\<close>

text \<open>
  The states a pool can be in: the constructor's, and the states after \<open>Init\<close>, \<open>Use\<close>,
  \<open>DestroyPool\<close>, a call of a disposal closure that an earlier \<open>Start\<close> was given, or
  a signal reaching the event (a signal may be delivered late or twice, so any pair of
  numbers is allowed here).
\<close>

inductive reachable :: "(nat \<Rightarrow> 'v) \<Rightarrow> ('v, 'd) ObjectPool \<Rightarrow> bool" for Create where
  constructed: "reachable Create (new_ObjectPool size0 type0)"
| after_Init: "reachable Create s \<Longrightarrow> Init Create s = Inr s' \<Longrightarrow> reachable Create s'"
| after_Use: "reachable Create s \<Longrightarrow> Use Create d s = Inr s' \<Longrightarrow> reachable Create s'"
| after_dispose:
    "reachable Create s \<Longrightarrow> StartCall v d r u \<in> set (hooks s) \<Longrightarrow>
     reachable Create (dispose r u s)"
| after_signal: "reachable Create s \<Longrightarrow> reachable Create (Fire cid u s)"
| after_DestroyPool: "reachable Create s \<Longrightarrow> reachable Create (DestroyPool s)"

text \<open>
  Every entry of the Registry refers to an object of the store that carries the entry's
  key as its \<open>CreationId\<close>, and the keys are below the creation counter.
\<close>

definition registry_ok :: "('v, 'd) ObjectPool \<Rightarrow> bool" where
  "registry_ok s \<longleftrightarrow>
     (\<forall>c r. instances_map s c = Some r \<longrightarrow>
        r < length (heap s) \<and> CreationId (heap s ! r) = c \<and> c < creation_id s)"

text \<open>
  A disposal signal is valid when the Registry holds its creation id and the stored
  \<open>UseId\<close> of that instance equals its use id.
\<close>

definition valid_signal :: "('v, 'd) ObjectPool \<Rightarrow> nat \<Rightarrow> nat \<Rightarrow> bool" where
  "valid_signal s cid use_id =
     (case instances_map s cid of
        None \<Rightarrow> False
      | Some instance \<Rightarrow> UseId (heap s ! instance) = use_id)"

subsection \<open>Example states\<close>

text \<open>
  A pool that is started, not destroyed, has its listener connected, has logged no
  warning and has constructed the objects of its store, given by the remaining fields.
\<close>

definition running_pool ::
  "real \<Rightarrow> EObjectPoolType \<Rightarrow> ref list \<Rightarrow> ref list \<Rightarrow> (nat \<rightharpoonup> ref) \<Rightarrow>
   'v IObjectPoolInstance list \<Rightarrow> ('v, 'd) hook_call list \<Rightarrow> ('v, 'd) ObjectPool" where
  "running_pool size0 type0 used free registry objects calls =
     \<lparr> initial_pool_size = size0,
       object_pool_type = type0,
       dispose_event = Connected,
       used_instances_list = used,
       instances_list = free,
       creation_id = length objects,
       instances_map = registry,
       is_destroyed = False,
       is_started = True,
       heap = objects,
       hooks = calls,
       create_calls = length objects,
       warnings = [] \<rparr>"

definition pool_instance :: "'v \<Rightarrow> bool \<Rightarrow> nat \<Rightarrow> nat \<Rightarrow> 'v IObjectPoolInstance" where
  "pool_instance v active cid uid = \<lparr> Value = v, IsActive = active, CreationId = cid, UseId = uid \<rparr>"

text \<open>
  Between two states: the creation counter and the store have not shrunk, no Registry key
  below the earlier counter has been bound anew, and no \<open>UseId\<close> has gone down.
\<close>

definition generations_advance :: "('v, 'd) ObjectPool \<Rightarrow> ('v, 'd) ObjectPool \<Rightarrow> bool" where
  "generations_advance s s' \<longleftrightarrow>
     creation_id s \<le> creation_id s' \<and> length (heap s) \<le> length (heap s')
     \<and> (\<forall>c r. c < creation_id s \<longrightarrow> instances_map s' c = Some r \<longrightarrow> instances_map s c = Some r)
     \<and> (\<forall>r. r < length (heap s) \<longrightarrow> UseId (heap s ! r) \<le> UseId (heap s' ! r))"


text \<open>
  A size in the words of the specification: a positive integer. (A number is an integer
  when it equals its floor.)
\<close>

definition positive_integer :: "real \<Rightarrow> bool" where
  "positive_integer x \<longleftrightarrow> 0 < x \<and> real_of_int \<lfloor>x\<rfloor> = x"

text \<open>The store after the instances \<open>rs\<close> have been marked active, one after another.\<close>

fun activate :: "ref list \<Rightarrow> 'v IObjectPoolInstance list \<Rightarrow> 'v IObjectPoolInstance list" where
  "activate [] h = h"
| "activate (r # rs) h = activate rs (h[r := (h ! r)\<lparr> IsActive := True \<rparr>])"

text \<open>
  The state right after the initialisation of a new pool of positive integer size: the instances
  \<open>0, 1, \<dots>\<close> in construction order on the Free List, each registered under its
  creation id.
\<close>

definition initialised :: "(nat \<Rightarrow> 'v) \<Rightarrow> int \<Rightarrow> EObjectPoolType \<Rightarrow> ('v, 'd) ObjectPool" where
  "initialised Create size0 type0 =
     running_pool (real_of_int size0) type0 [] [0..<nat size0]
       (\<lambda>c. if c < nat size0 then Some c else None)
       (map (\<lambda>k. pool_instance (Create k) False k 0) [0..<nat size0])
       (map (\<lambda>k. CreateCall (Create k)) [0..<nat size0])"

text \<open>
  A pool of size 2 after \<open>Use(A)\<close>, after \<open>Use(A)\<close> and \<open>Use(B)\<close>, and, for the Fixed
  strategy, after a third \<open>Use(C)\<close>.
\<close>

definition pool2_A :: "EObjectPoolType \<Rightarrow> (nat, string) ObjectPool" where
  "pool2_A type0 =
     running_pool 2 type0 [1] [0] [0 \<mapsto> 0, 1 \<mapsto> 1]
       [pool_instance 0 False 0 0, pool_instance 1 True 1 0]
       [CreateCall 0, CreateCall 1, StartCall 1 ''A'' 1 0]"

definition pool2_AB :: "EObjectPoolType \<Rightarrow> (nat, string) ObjectPool" where
  "pool2_AB type0 =
     running_pool 2 type0 [1, 0] [] [0 \<mapsto> 0, 1 \<mapsto> 1]
       [pool_instance 0 True 0 0, pool_instance 1 True 1 0]
       [CreateCall 0, CreateCall 1, StartCall 1 ''A'' 1 0, StartCall 0 ''B'' 0 0]"

definition pool2_ABC :: "(nat, string) ObjectPool" where
  "pool2_ABC =
     running_pool 2 Fixed [0, 1] [] [0 \<mapsto> 0, 1 \<mapsto> 1]
       [pool_instance 0 True 0 0, pool_instance 1 True 1 1]
       [CreateCall 0, CreateCall 1, StartCall 1 ''A'' 1 0, StartCall 0 ''B'' 0 0,
        DisposeCall 1, StartCall 1 ''C'' 1 1]"

section \<open>Properties\<close>

subsection \<open>The registry invariant\<close>

lemma nth_update_same:
  "f y = f (xs ! r) \<Longrightarrow> f (xs[r := y] ! r') = f (xs ! r')"
  by (cases "r < length xs") (auto simp: nth_list_update list_update_beyond)

lemmas nth_update_CreationId = nth_update_same [where f = CreationId]

lemma registry_ok_set_IsActive: "registry_ok s \<Longrightarrow> registry_ok (set_IsActive r b s)"
  unfolding registry_ok_def set_IsActive_def by (simp add: nth_update_CreationId)

lemma registry_ok_DisposeOfInstance: "registry_ok s \<Longrightarrow> registry_ok (DisposeOfInstance r s)"
  unfolding registry_ok_def DisposeOfInstance_def by (simp add: nth_update_CreationId)

lemma registry_ok_DestroyInstance: "registry_ok s \<Longrightarrow> registry_ok (DestroyInstance r s)"
  unfolding registry_ok_def DestroyInstance_def by (simp split: if_splits)

lemma registry_ok_CreateInstance: "registry_ok s \<Longrightarrow> registry_ok (snd (CreateInstance Create s))"
  unfolding registry_ok_def CreateInstance_def
  by (auto simp: Let_def nth_append less_Suc_eq dest: spec)

lemma registry_ok_fields:
  "instances_map s' = instances_map s \<Longrightarrow> heap s' = heap s \<Longrightarrow> creation_id s' = creation_id s
   \<Longrightarrow> registry_ok s \<Longrightarrow> registry_ok s'"
  unfolding registry_ok_def by simp


lemma registry_ok_update [simp]:
  "registry_ok (s\<lparr>used_instances_list := a\<rparr>) = registry_ok s"
  "registry_ok (s\<lparr>instances_list := a\<rparr>) = registry_ok s"
  "registry_ok (s\<lparr>hooks := h\<rparr>) = registry_ok s"
  "registry_ok (s\<lparr>warnings := w\<rparr>) = registry_ok s"
  "registry_ok (s\<lparr>dispose_event := e\<rparr>) = registry_ok s"
  "registry_ok (s\<lparr>is_destroyed := b\<rparr>) = registry_ok s"
  "registry_ok (s\<lparr>is_started := b\<rparr>) = registry_ok s"
  by (simp_all add: registry_ok_def)

lemma registry_ok_FreeInstance: "registry_ok s \<Longrightarrow> registry_ok (FreeInstance r s)"
  by (simp add: FreeInstance_def Let_def registry_ok_DisposeOfInstance registry_ok_DestroyInstance)

lemma registry_ok_Fire: "registry_ok s \<Longrightarrow> registry_ok (Fire cid u s)"
  by (simp add: Fire_def dispose_listener_def registry_ok_FreeInstance split: option.split)

lemma registry_ok_dispose: "registry_ok s \<Longrightarrow> registry_ok (dispose r u s)"
  by (simp add: dispose_def registry_ok_Fire)

lemma registry_ok_AllocateInstance:
  "registry_ok s \<Longrightarrow> registry_ok (snd (AllocateInstance Create s))"
  using registry_ok_CreateInstance [of s Create]
  by (auto simp: AllocateInstance_def registry_ok_set_IsActive registry_ok_DisposeOfInstance
        split: list.split prod.split)

lemma registry_ok_create_loop: "registry_ok s \<Longrightarrow> registry_ok (create_loop Create k s)"
proof (induction k arbitrary: s)
  case 0
  then show ?case by simp
next
  case (Suc k)
  from Suc.prems have "registry_ok (snd (CreateInstance Create s))"
    by (rule registry_ok_CreateInstance)
  then show ?case
    by (auto intro!: Suc.IH split: prod.split)
qed

lemma registry_ok_Init: "registry_ok s \<Longrightarrow> Init Create s = Inr s' \<Longrightarrow> registry_ok s'"
  by (auto simp: Init_def registry_ok_create_loop split: if_splits)

lemma registry_ok_Use: "registry_ok s \<Longrightarrow> Use Create d s = Inr s' \<Longrightarrow> registry_ok s'"
proof -
  assume ok: "registry_ok s" and u: "Use Create d s = Inr s'"
  obtain s1 where s1: "(if \<not> is_started s then Init Create s else Inr s) = Inr s1"
    using u by (auto simp: Use_def split: sum.splits)
  then have ok1: "registry_ok s1"
    using ok registry_ok_Init [of s Create s1] by (auto split: if_splits)
  have ok2: "registry_ok (snd (AllocateInstance Create s1))"
    using ok1 by (rule registry_ok_AllocateInstance)
  show ?thesis
    using u s1 ok2 by (auto simp: Use_def split: if_splits prod.splits option.splits)
qed

lemma registry_ok_destroy_used_loop: "registry_ok s \<Longrightarrow> registry_ok (destroy_used_loop i s)"
proof (induction i s rule: destroy_used_loop.induct)
  case (1 i s)
  show ?case
    by (subst destroy_used_loop.simps)
       (use 1 in \<open>auto simp: registry_ok_DestroyInstance registry_ok_DisposeOfInstance\<close>)
qed

lemma registry_ok_destroy_free_loop: "registry_ok s \<Longrightarrow> registry_ok (destroy_free_loop i s)"
proof (induction i s rule: destroy_free_loop.induct)
  case (1 i s)
  show ?case
    by (subst destroy_free_loop.simps) (use 1 in \<open>auto simp: registry_ok_DestroyInstance\<close>)
qed

lemma registry_ok_DestroyPool: "registry_ok s \<Longrightarrow> registry_ok (DestroyPool s)"
  by (simp add: DestroyPool_def registry_ok_destroy_used_loop registry_ok_destroy_free_loop)

lemma reachable_registry_ok: "reachable Create s \<Longrightarrow> registry_ok s"
proof (induction rule: reachable.induct)
  case (constructed size0 type0)
  show ?case by (simp add: registry_ok_def new_ObjectPool_def)
next
  case (after_Init s s')
  then show ?case by (auto intro: registry_ok_Init)
next
  case (after_Use s d s')
  then show ?case by (auto intro: registry_ok_Use)
next
  case (after_dispose s v d r u)
  then show ?case by (simp add: registry_ok_dispose)
next
  case (after_signal s cid u)
  then show ?case by (simp add: registry_ok_Fire)
next
  case (after_DestroyPool s)
  then show ?case by (simp add: registry_ok_DestroyPool)
qed


lemma create_step:
  "(case CreateInstance C s of
      (object_pool_instance, s1) \<Rightarrow>
        s1\<lparr> instances_list := instances_list s1 @ [object_pool_instance] \<rparr>)
   = s\<lparr> creation_id := Suc (creation_id s),
        create_calls := Suc (create_calls s),
        hooks := hooks s @ [CreateCall (C (create_calls s))],
        heap := heap s @ [\<lparr> Value = C (create_calls s), IsActive = False,
                            CreationId = creation_id s, UseId = 0 \<rparr>],
        instances_map := (instances_map s)(creation_id s \<mapsto> length (heap s)),
        instances_list := instances_list s @ [length (heap s)] \<rparr>"
  by (simp add: CreateInstance_def Let_def)

lemma create_loop_eq:
  "create_loop C k s =
     s\<lparr> creation_id := creation_id s + k,
        create_calls := create_calls s + k,
        hooks := hooks s @ map (\<lambda>j. CreateCall (C (create_calls s + j))) [0..<k],
        heap := heap s @ map (\<lambda>j. \<lparr> Value = C (create_calls s + j), IsActive = False,
                                      CreationId = creation_id s + j, UseId = 0 \<rparr>) [0..<k],
        instances_map := (\<lambda>c. if creation_id s \<le> c \<and> c < creation_id s + k
                                then Some (length (heap s) + (c - creation_id s))
                                else instances_map s c),
        instances_list := instances_list s @ [length (heap s)..<length (heap s) + k] \<rparr>"
proof (induction k arbitrary: s)
  case 0
  have "(\<lambda>c. if creation_id s \<le> c \<and> c < creation_id s + 0
              then Some (length (heap s) + (c - creation_id s))
              else instances_map s c) = instances_map s"
    by (auto simp: fun_eq_iff)
  then show ?case by simp
next
  case (Suc k)
  have u: "[length (heap s)..<length (heap s) + Suc k]
             = length (heap s) # [Suc (length (heap s))..<Suc (length (heap s)) + k]"
    by (simp add: upt_conv_Cons)
  show ?case
    unfolding create_loop.simps create_step Suc.IH u
    by (rule ObjectPool.equality) (auto simp add: map_upt_Suc fun_eq_iff simp del: upt_Suc)
qed

subsection \<open>Initialisation and teardown\<close>

lemma is_destroyed_DestroyPool: "is_destroyed (DestroyPool s)"
  by (simp add: DestroyPool_def)

lemma Use_destroyed:
  "is_destroyed s \<Longrightarrow> Use Create d s = Inl (AssertionFailed ''Object pool is destroyed'')"
  by (simp add: Use_def Init_def)

lemma Init_not_started:
  "\<not> is_started s \<Longrightarrow> \<not> is_destroyed s \<Longrightarrow> 0 < initial_pool_size s \<Longrightarrow>
   Init Create s =
     Inr (s\<lparr> is_started := True,
             dispose_event := Connected,
             creation_id := creation_id s + nat \<lfloor>initial_pool_size s\<rfloor>,
             create_calls := create_calls s + nat \<lfloor>initial_pool_size s\<rfloor>,
             hooks := hooks s @
               map (\<lambda>j. CreateCall (Create (create_calls s + j))) [0..<nat \<lfloor>initial_pool_size s\<rfloor>],
             heap := heap s @
               map (\<lambda>j. \<lparr> Value = Create (create_calls s + j), IsActive = False,
                           CreationId = creation_id s + j, UseId = 0 \<rparr>)
                 [0..<nat \<lfloor>initial_pool_size s\<rfloor>],
             instances_map :=
               (\<lambda>c. if creation_id s \<le> c \<and> c < creation_id s + nat \<lfloor>initial_pool_size s\<rfloor>
                    then Some (length (heap s) + (c - creation_id s))
                    else instances_map s c),
             instances_list := instances_list s @
               [length (heap s)..<length (heap s) + nat \<lfloor>initial_pool_size s\<rfloor>] \<rparr>)"
  unfolding Init_def range_count_def create_loop_eq
  by (simp, rule ObjectPool.equality) (simp_all cong del: if_weak_cong)

lemma is_started_create_loop: "is_started (create_loop Create k s) = is_started s"
  by (subst create_loop_eq) simp

lemma Init_started_after: "Init Create s = Inr s' \<Longrightarrow> is_started s'"
  unfolding Init_def by (auto simp: is_started_create_loop split: if_splits)

subsection \<open>Example runs\<close>

lemmas pool_defs =
  Use_def Init_def AllocateInstance_def CreateInstance_def DisposeOfInstance_def
  DestroyInstance_def FreeInstance_def set_IsActive_def dispose_listener_def Fire_def
  dispose_def range_count_def create_step new_ObjectPool_def running_pool_def
  pool_instance_def remove_idx_def valid_signal_def Let_def

lemma Use_new_1:
  "Use id ''A'' (new_ObjectPool 1 t) =
     Inr (running_pool 1 t [0] [] [0 \<mapsto> 0] [pool_instance 0 True 0 0]
            [CreateCall 0, StartCall 0 ''A'' 0 0])"
  by (simp add: pool_defs)

lemma Init_new_1:
  "Init id (new_ObjectPool 1 t) =
     Inr (running_pool 1 t [] [0] [0 \<mapsto> 0] [pool_instance 0 False 0 0] [CreateCall 0])"
  by (simp add: Init_def new_ObjectPool_def range_count_def running_pool_def pool_instance_def
        create_step)

lemma DestroyPool_new:
  "DestroyPool (new_ObjectPool n t) =
     (new_ObjectPool n t)\<lparr> dispose_event := Destroyed, is_destroyed := True \<rparr>"
  by (simp add: DestroyPool_def new_ObjectPool_def destroy_used_loop.simps
        destroy_free_loop.simps)

subsection \<open>Generations only advance\<close>

lemma generations_advance_refl: "generations_advance s s"
  by (simp add: generations_advance_def)

lemma generations_advance_trans:
  "generations_advance s s' \<Longrightarrow> generations_advance s' s'' \<Longrightarrow> generations_advance s s''"
  unfolding generations_advance_def
  by (meson le_trans less_le_trans)

lemmas nth_update_UseId = nth_update_same [where f = UseId]

lemma advance_set_IsActive: "generations_advance s (set_IsActive r b s)"
  by (simp add: generations_advance_def set_IsActive_def nth_update_UseId)

lemma UseId_update_le:
  "UseId (xs ! r) \<le> UseId y \<Longrightarrow> UseId (xs ! r') \<le> UseId (xs[r := y] ! r')"
  by (cases "r < length xs") (auto simp: nth_list_update list_update_beyond)

lemma advance_DisposeOfInstance: "generations_advance s (DisposeOfInstance r s)"
  by (simp add: generations_advance_def DisposeOfInstance_def UseId_update_le)

lemma advance_CreateInstance: "generations_advance s (snd (CreateInstance Create s))"
  by (simp add: generations_advance_def CreateInstance_def Let_def nth_append)

lemma advance_update [simp]:
  "generations_advance s (s'\<lparr>used_instances_list := a\<rparr>) = generations_advance s s'"
  "generations_advance s (s'\<lparr>instances_list := a\<rparr>) = generations_advance s s'"
  "generations_advance s (s'\<lparr>hooks := h\<rparr>) = generations_advance s s'"
  "generations_advance s (s'\<lparr>warnings := w\<rparr>) = generations_advance s s'"
  "generations_advance s (s'\<lparr>dispose_event := e\<rparr>) = generations_advance s s'"
  "generations_advance s (s'\<lparr>is_started := b\<rparr>) = generations_advance s s'"
  by (simp_all add: generations_advance_def)

lemma advance_update_left:
  "generations_advance (s\<lparr>used_instances_list := a\<rparr>) s' = generations_advance s s'"
  "generations_advance (s\<lparr>is_started := b\<rparr>) s' = generations_advance s s'"
  by (simp_all add: generations_advance_def)

lemma advance_AllocateInstance: "generations_advance s (snd (AllocateInstance Create s))"
proof -
  have a: "\<And>r rest. generations_advance s
        (set_IsActive r True (DisposeOfInstance r (s\<lparr>used_instances_list := rest @ [r]\<rparr>)))"
    by (rule generations_advance_trans [OF _ advance_set_IsActive],
        rule generations_advance_trans [OF _ advance_DisposeOfInstance])
       (simp add: generations_advance_refl)
  have b: "\<And>r a c. generations_advance s
        (set_IsActive r True (s\<lparr>instances_list := a, used_instances_list := c\<rparr>))"
    by (rule generations_advance_trans [OF _ advance_set_IsActive])
       (simp add: generations_advance_refl)
  show ?thesis
    using advance_CreateInstance [of s Create] a b
    by (auto simp: AllocateInstance_def generations_advance_refl split: list.split prod.split)
qed

lemma advance_create_loop: "generations_advance s (create_loop Create k s)"
  unfolding create_loop_eq by (simp add: generations_advance_def nth_append)

lemma advance_Init: "Init Create s = Inr s' \<Longrightarrow> generations_advance s s'"
  using advance_create_loop [of "s\<lparr>is_started := True\<rparr>" Create]
  by (auto simp: Init_def generations_advance_refl advance_update_left split: if_splits)

lemma advance_Use: "Use Create d s = Inr s' \<Longrightarrow> generations_advance s s'"
proof -
  assume u: "Use Create d s = Inr s'"
  obtain s1 where s1: "(if \<not> is_started s then Init Create s else Inr s) = Inr s1"
    using u by (auto simp: Use_def split: sum.splits)
  then have a1: "generations_advance s s1"
    using advance_Init [of Create s s1] by (auto simp: generations_advance_refl split: if_splits)
  have a2: "generations_advance s1 (snd (AllocateInstance Create s1))"
    by (rule advance_AllocateInstance)
  have "generations_advance s1 s'"
    using u s1 a2 by (auto simp: Use_def split: if_splits prod.splits option.splits)
  with a1 show ?thesis by (rule generations_advance_trans)
qed

subsection \<open>The disposal channel\<close>

lemma Fire_valid:
  "dispose_event s = Connected \<Longrightarrow> instances_map s cid = Some r \<Longrightarrow>
   UseId (heap s ! r) = use_id \<Longrightarrow> Fire cid use_id s = FreeInstance r s"
  by (simp add: Fire_def dispose_listener_def)

lemma dispose_listener_stale:
  "\<not> valid_signal s cid use_id \<Longrightarrow> dispose_listener cid use_id s = s"
  by (simp add: valid_signal_def dispose_listener_def split: option.splits)

lemma FreeInstance_creation_id: "creation_id (FreeInstance r s) = creation_id s"
  by (simp add: FreeInstance_def DisposeOfInstance_def DestroyInstance_def Let_def)

lemma FreeInstance_UseId:
  "r < length (heap s) \<Longrightarrow> UseId (heap (FreeInstance r s) ! r) = Suc (UseId (heap s ! r))"
  by (simp add: FreeInstance_def DisposeOfInstance_def DestroyInstance_def Let_def)

lemma FreeInstance_length_heap: "length (heap (FreeInstance r s)) = length (heap s)"
  by (simp add: FreeInstance_def DisposeOfInstance_def DestroyInstance_def Let_def)

lemma FreeInstance_instances_map:
  "instances_map (FreeInstance r s) c = Some r' \<Longrightarrow> instances_map s c = Some r'"
  by (simp add: FreeInstance_def DisposeOfInstance_def DestroyInstance_def Let_def
        split: if_splits)

subsection \<open>Freeing an instance\<close>

lemma indexOf_ge: "- 1 \<le> indexOf xs x"
  by (induction xs) auto



subsection \<open>More example runs\<close>



subsection \<open>Overlapping uses\<close>

lemma Use_started:
  "is_started s \<Longrightarrow> \<not> is_destroyed s \<Longrightarrow>
   Use Create d s =
     (case AllocateInstance Create s of
        (None, s2) \<Rightarrow> Inr s2
      | (Some r, s2) \<Rightarrow>
          Inr (s2\<lparr> hooks := hooks s2 @ [StartCall (Value (heap s2 ! r)) d r (UseId (heap s2 ! r))] \<rparr>))"
  by (simp add: Use_def)

lemma Use_not_started:
  "\<not> is_started s \<Longrightarrow> Init Create s = Inr s0 \<Longrightarrow> Use Create d s = Use Create d s0"
  using Init_started_after [of Create s s0] by (simp add: Use_def)

lemma Use_pop:
  "is_started s \<Longrightarrow> \<not> is_destroyed s \<Longrightarrow> instances_list s = free @ [r] \<Longrightarrow>
   Use Create d s =
     Inr (s\<lparr> instances_list := free,
             used_instances_list := used_instances_list s @ [r],
             heap := activate [r] (heap s),
             hooks := hooks s @ [StartCall (Value (heap s ! r)) d r (UseId (heap s ! r))] \<rparr>)"
  by (simp add: Use_started AllocateInstance_def set_IsActive_def
        nth_update_same [where f = Value] nth_update_same [where f = UseId])

lemma activate_append: "activate (rs @ rs') h = activate rs' (activate rs h)"
  by (induction rs arbitrary: h) simp_all

lemma activate_same:
  "(\<And>x. f (x\<lparr> IsActive := True \<rparr>) = f x) \<Longrightarrow> f (activate rs h ! r) = f (h ! r)"
proof (induction rs arbitrary: h)
  case Nil
  show ?case by simp
next
  case (Cons a rs)
  have "f (activate rs (h[a := (h ! a)\<lparr> IsActive := True \<rparr>]) ! r)
          = f (h[a := (h ! a)\<lparr> IsActive := True \<rparr>] ! r)"
    by (rule Cons.IH) (rule Cons.prems)
  also have "\<dots> = f (h ! r)"
    by (rule nth_update_same) (rule Cons.prems)
  finally show ?case by simp
qed

lemma length_activate: "length (activate rs h) = length h"
  by (induction rs arbitrary: h) simp_all

lemma uses_pop:
  "is_started s \<Longrightarrow> \<not> is_destroyed s \<Longrightarrow> instances_list s = free @ rev rs \<Longrightarrow>
   length ds = length rs \<Longrightarrow>
   uses Create ds s =
     Inr (s\<lparr> instances_list := free,
             used_instances_list := used_instances_list s @ rs,
             heap := activate rs (heap s),
             hooks := hooks s @
               map (\<lambda>(r, d). StartCall (Value (heap s ! r)) d r (UseId (heap s ! r))) (zip rs ds) \<rparr>)"
proof (induction ds arbitrary: s rs)
  case Nil
  then show ?case by simp
next
  case (Cons d ds)
  then obtain r rs' where rs: "rs = r # rs'" by (cases rs) auto
  let ?s1 = "s\<lparr> instances_list := free @ rev rs',
             used_instances_list := used_instances_list s @ [r],
             heap := activate [r] (heap s),
             hooks := hooks s @ [StartCall (Value (heap s ! r)) d r (UseId (heap s ! r))] \<rparr>"
  have u: "Use Create d s = Inr ?s1"
    using Cons.prems(1,2) by (rule Use_pop) (simp add: Cons.prems(3) rs)
  have v: "\<And>x. Value (activate [r] (heap s) ! x) = Value (heap s ! x)"
    by (rule activate_same) simp
  have w: "\<And>x. UseId (activate [r] (heap s) ! x) = UseId (heap s ! x)"
    by (rule activate_same) simp
  have "uses Create ds ?s1 =
     Inr (?s1\<lparr> instances_list := free,
             used_instances_list := used_instances_list ?s1 @ rs',
             heap := activate rs' (heap ?s1),
             hooks := hooks ?s1 @
               map (\<lambda>(r, d). StartCall (Value (heap ?s1 ! r)) d r (UseId (heap ?s1 ! r)))
                 (zip rs' ds) \<rparr>)"
    by (rule Cons.IH) (use Cons.prems rs in simp_all)
  then show ?case
    unfolding uses.simps u rs by (simp add: v w del: activate.simps) simp
qed

lemma Init_new:
  "0 < N \<Longrightarrow> Init Create (new_ObjectPool (real_of_int N) t) = Inr (initialised Create N t)"
proof -
  assume N: "0 < N"
  have "Init Create (new_ObjectPool (real_of_int N) t) = Inr ((create_loop Create (nat N)
          ((new_ObjectPool (real_of_int N) t)\<lparr> is_started := True \<rparr>))\<lparr> dispose_event := Connected \<rparr>)"
    using N by (simp add: Init_def range_count_def new_ObjectPool_def)
  also have "(create_loop Create (nat N)
          ((new_ObjectPool (real_of_int N) t)\<lparr> is_started := True \<rparr>))\<lparr> dispose_event := Connected \<rparr>
        = initialised Create N t"
    unfolding create_loop_eq initialised_def running_pool_def new_ObjectPool_def pool_instance_def
    by (simp cong del: if_weak_cong)
  finally show ?thesis .
qed

lemma initialised_fields:
  "is_started (initialised Create N t)"
  "\<not> is_destroyed (initialised Create N t)"
  "object_pool_type (initialised Create N t) = t"
  "initial_pool_size (initialised Create N t) = real_of_int N"
  "instances_list (initialised Create N t) = [0..<nat N]"
  "used_instances_list (initialised Create N t) = []"
  "instances_map (initialised Create N t) = (\<lambda>c. if c < nat N then Some c else None)"
  "hooks (initialised Create N t) = map (\<lambda>k. CreateCall (Create k)) [0..<nat N]"
  "heap (initialised Create N t) = map (\<lambda>k. pool_instance (Create k) False k 0) [0..<nat N]"
  "creation_id (initialised Create N t) = nat N"
  by (simp_all add: initialised_def running_pool_def)

lemma Use_new:
  "0 < N \<Longrightarrow> Use Create d (new_ObjectPool (real_of_int N) t) = Use Create d (initialised Create N t)"
proof (rule Use_not_started)
  show "\<not> is_started (new_ObjectPool (real_of_int N) t)" by (simp add: new_ObjectPool_def)
qed (rule Init_new)

lemma uses_new:
  "0 < N \<Longrightarrow> ds \<noteq> [] \<Longrightarrow>
   uses Create ds (new_ObjectPool (real_of_int N) t) = uses Create ds (initialised Create N t)"
  by (cases ds) (simp_all add: Use_new)

lemma dom_initialised: "dom (instances_map (initialised Create N t)) = {0..<nat N}"
  by (auto simp: initialised_fields split: if_splits)


lemma Use_new_first:
  fixes Create :: "nat \<Rightarrow> 'v" and d :: 'd
  assumes "0 < N"
  shows "Use Create d (new_ObjectPool (real_of_int N) t) =
     Inr ((initialised Create N t)
            \<lparr> instances_list := [0..<nat N - 1],
              used_instances_list := [nat N - 1],
              heap := activate [nat N - 1] (heap (initialised Create N t :: ('v, 'd) ObjectPool)),
              hooks := hooks (initialised Create N t) @
                [StartCall (Create (nat N - 1)) d (nat N - 1) 0] \<rparr>)"
proof -
  let ?i = "initialised Create N t :: ('v, 'd) ObjectPool"
  from assms obtain m where m: "nat N = Suc m" by (cases "nat N") auto
  have "Use Create d ?i =
     Inr (?i\<lparr> instances_list := [0..<m],
              used_instances_list := used_instances_list ?i @ [m],
              heap := activate [m] (heap ?i),
              hooks := hooks ?i @
                [StartCall (Value (heap ?i ! m)) d m (UseId (heap ?i ! m))] \<rparr>)"
    by (rule Use_pop) (simp_all add: initialised_fields m)
  moreover have "heap ?i ! m = pool_instance (Create m) False m 0"
    unfolding initialised_fields m by (simp add: nth_append)
  ultimately show ?thesis
    by (simp add: Use_new [OF assms] m initialised_fields(6) pool_instance_def)
qed


lemma uses_new_all:
  fixes Create :: "nat \<Rightarrow> 'v" and ds :: "'d list"
  assumes "0 < N" and "length ds = nat N"
  shows "uses Create ds (new_ObjectPool (real_of_int N) t) =
     Inr ((initialised Create N t)
            \<lparr> instances_list := [],
              used_instances_list := rev [0..<nat N],
              heap := activate (rev [0..<nat N])
                        (heap (initialised Create N t :: ('v, 'd) ObjectPool)),
              hooks := hooks (initialised Create N t) @
                map (\<lambda>(r, d). StartCall (Create r) d r 0) (zip (rev [0..<nat N]) ds) \<rparr>)"
proof -
  let ?i = "initialised Create N t :: ('v, 'd) ObjectPool"
  from assms have ne: "ds \<noteq> []" by auto
  have "uses Create ds ?i =
     Inr (?i\<lparr> instances_list := [],
             used_instances_list := used_instances_list ?i @ rev [0..<nat N],
             heap := activate (rev [0..<nat N]) (heap ?i),
             hooks := hooks ?i @
               map (\<lambda>(r, d). StartCall (Value (heap ?i ! r)) d r (UseId (heap ?i ! r)))
                 (zip (rev [0..<nat N]) ds) \<rparr>)"
    by (rule uses_pop) (simp_all add: initialised_fields assms(2))
  moreover have "map (\<lambda>(r, d). StartCall (Value (heap ?i ! r)) d r (UseId (heap ?i ! r)))
                 (zip (rev [0..<nat N]) ds)
      = map (\<lambda>(r, d). StartCall (Create r) d r 0) (zip (rev [0..<nat N]) ds)"
    by (rule map_cong) (auto simp: initialised_fields pool_instance_def dest!: set_zip_leftD)
  ultimately show ?thesis
    by (simp add: uses_new [OF assms(1) ne] initialised_fields(6))
qed

lemma Use_fixed_recycle:
  "is_started s \<Longrightarrow> \<not> is_destroyed s \<Longrightarrow> instances_list s = [] \<Longrightarrow>
   object_pool_type s = Fixed \<Longrightarrow> used_instances_list s = r # rest \<Longrightarrow> r < length (heap s) \<Longrightarrow>
   Use Create d s =
     Inr (s\<lparr> used_instances_list := rest @ [r],
             heap := (heap s)[r := (heap s ! r)
                        \<lparr> UseId := Suc (UseId (heap s ! r)), IsActive := True \<rparr>],
             hooks := hooks s @
               [DisposeCall (Value (heap s ! r)),
                StartCall (Value (heap s ! r)) d r (Suc (UseId (heap s ! r)))] \<rparr>)"
  by (simp add: Use_started AllocateInstance_def set_IsActive_def DisposeOfInstance_def)

lemma Use_failsilent:
  "is_started s \<Longrightarrow> \<not> is_destroyed s \<Longrightarrow> instances_list s = [] \<Longrightarrow>
   object_pool_type s = FailSilent \<Longrightarrow> Use Create d s = Inr s"
  by (simp add: Use_started AllocateInstance_def)

lemma Use_no_growth:
  assumes "is_started s" and "object_pool_type s = Fixed \<or> object_pool_type s = FailSilent"
    and "Use Create d s = Inr s'"
  shows "instances_map s' = instances_map s \<and> creation_id s' = creation_id s
         \<and> is_started s' \<and> object_pool_type s' = object_pool_type s"
  using assms
  by (auto simp: Use_def AllocateInstance_def set_IsActive_def DisposeOfInstance_def
        split: if_splits list.splits)

lemma uses_no_growth:
  "is_started s \<Longrightarrow> object_pool_type s = Fixed \<or> object_pool_type s = FailSilent \<Longrightarrow>
   uses Create ds s = Inr s' \<Longrightarrow> instances_map s' = instances_map s"
proof (induction ds arbitrary: s)
  case Nil
  then show ?case by simp
next
  case (Cons d ds)
  from Cons.prems(3) obtain s1 where u: "Use Create d s = Inr s1" and r: "uses Create ds s1 = Inr s'"
    by (auto split: sum.splits)
  from Use_no_growth [OF Cons.prems(1,2) u] Cons.IH [OF _ _ r] Cons.prems(2)
  show ?case by auto
qed

lemma uses_new_registry:
  fixes Create :: "nat \<Rightarrow> 'v" and ds :: "'d list"
  assumes "0 < N" and "t = Fixed \<or> t = FailSilent"
    and "uses Create ds (new_ObjectPool (real_of_int N) t) = Inr s"
  shows "card (dom (instances_map s)) \<le> nat N"
proof (cases ds)
  case Nil
  with assms(3) have "s = new_ObjectPool (real_of_int N) t" by simp
  then show ?thesis by (simp add: new_ObjectPool_def)
next
  case (Cons d ds')
  then have ne: "ds \<noteq> []" by simp
  have "uses Create ds (initialised Create N t) = Inr s"
    using uses_new [OF assms(1) ne, of Create t] assms(3) by simp
  then have "instances_map s = instances_map (initialised Create N t :: ('v, 'd) ObjectPool)"
    by (rule uses_no_growth [rotated 2]) (simp_all add: initialised_fields assms(2))
  then show ?thesis by (simp add: dom_initialised)
qed

subsection \<open>Runs of a pool of size 2 or 3\<close>

lemma Use_pool2_A: "Use id ''A'' (new_ObjectPool 2 t) = Inr (pool2_A t)"
  by (simp add: pool2_A_def pool_defs eval_nat_numeral)

lemma Use_pool2_AB: "Use id ''B'' (pool2_A t) = Inr (pool2_AB t)"
  by (simp add: pool2_A_def pool2_AB_def pool_defs)

lemma Use_pool2_ABC: "Use id ''C'' (pool2_AB Fixed) = Inr pool2_ABC"
  by (simp add: pool2_AB_def pool2_ABC_def pool_defs)

lemma uses_pool2_AB: "uses id [''A'', ''B''] (new_ObjectPool 2 t) = Inr (pool2_AB t)"
  by (simp add: Use_pool2_A Use_pool2_AB)

lemma Use_new_3:
  "Use id ''A'' (new_ObjectPool 3 t) =
     Inr (running_pool 3 t [2] [0, 1] [0 \<mapsto> 0, 1 \<mapsto> 1, 2 \<mapsto> 2]
            [pool_instance 0 False 0 0, pool_instance 1 False 1 0, pool_instance 2 True 2 0]
            [CreateCall 0, CreateCall 1, CreateCall 2, StartCall 2 ''A'' 2 0])"
  by (simp add: pool_defs eval_nat_numeral)

lemma ran_below: "ran (\<lambda>c. if c < n then Some c else None) = set [0..<n]"
proof -
  have "\<And>x. (\<exists>c. (if c < n then Some c else None) = Some x) = (x < n)"
    by (metis option.distinct(1) option.inject)
  then show ?thesis by (simp add: ran_def set_eq_iff)
qed

lemma Use_pool2_failsilent: "Use id ''C'' (pool2_AB FailSilent) = Inr (pool2_AB FailSilent)"
  by (simp add: pool2_AB_def pool_defs)

lemma initialised_2:
  "initialised id 2 t =
     running_pool 2 t [] [0, 1] [0 \<mapsto> 0, 1 \<mapsto> 1]
       [pool_instance 0 False 0 0, pool_instance 1 False 1 0] [CreateCall 0, CreateCall 1]"
proof -
  have "(\<lambda>c. if c < 2 then Some c else None) = [0 \<mapsto> 0, 1 \<mapsto> (1::nat)]"
    by (auto simp: fun_eq_iff)
  moreover have "[0..<2] = [0, 1]" by (simp add: upt_rec)
  ultimately show ?thesis by (simp add: initialised_def)
qed

subsection \<open>Runs of pools whose size is not an integer\<close>

lemma Init_new_half:
  "Init id (new_ObjectPool (1 / 2) t) = Inr (running_pool (1 / 2) t [] [] Map.empty [] [])"
  by (simp add: pool_defs)

lemma Use_new_half:
  "Use id ''A'' (new_ObjectPool (1 / 2) Fixed) =
     Inr ((running_pool (1 / 2) Fixed [] [] Map.empty [] [])
            \<lparr> warnings := [''Something went wrong''] \<rparr>)"
  by (simp add: pool_defs)

lemma Init_new_five_halves:
  "Init id (new_ObjectPool (5 / 2) t) =
     Inr (running_pool (5 / 2) t [] [0, 1] [0 \<mapsto> 0, 1 \<mapsto> 1]
            [pool_instance 0 False 0 0, pool_instance 1 False 1 0] [CreateCall 0, CreateCall 1])"
  by (simp add: pool_defs eval_nat_numeral)

section \<open>The claims\<close>

text \<open>
  Claim C7, as stated, at a concrete input. The sizes \<open>1 / 2\<close> and \<open>5 / 2\<close> are not
  positive integers, yet initialisation does not halt: the assertion of \<open>Init\<close> tests
  only that the size is greater than 0. With size \<open>1 / 2\<close> the construction loop runs no
  time, \<open>Init\<close> returns normally with an empty pool, and a first \<open>Use\<close> of the Fixed
  strategy returns normally after the warning of its defensive branch. With size
  \<open>5 / 2\<close> \<open>Init\<close> returns normally with two instances.
\<close>

theorem fatal_size_counterexample:
  "\<not> positive_integer (1 / 2)
   \<and> Init id (new_ObjectPool (1 / 2) Fixed)
       = Inr (running_pool (1 / 2) Fixed [] [] Map.empty [] [] :: (nat, string) ObjectPool)
   \<and> Use id ''A'' (new_ObjectPool (1 / 2) Fixed)
       = Inr ((running_pool (1 / 2) Fixed [] [] Map.empty [] [])
                \<lparr> warnings := [''Something went wrong''] \<rparr>)
   \<and> \<not> positive_integer (5 / 2)
   \<and> Init id (new_ObjectPool (5 / 2) Fixed)
       = Inr (running_pool (5 / 2) Fixed [] [0, 1] [0 \<mapsto> 0, 1 \<mapsto> 1]
           [pool_instance 0 False 0 0, pool_instance 1 False 1 0]
           [CreateCall 0, CreateCall 1 :: (nat, string) hook_call])"
  by (simp add: Init_new_half Use_new_half Init_new_five_halves positive_integer_def)

text \<open>
  Claim C7, amended. Calling \<open>Use\<close> after \<open>DestroyPool\<close> halts with a fatal error (an
  \<open>Inl\<close> result). Initialisation, explicit through \<open>Init\<close> or through the first
  \<open>Use\<close>, halts with a fatal error when the pool was already destroyed or when the
  configured size is not greater than 0; every size greater than 0, integer or not, is
  accepted by a pool that is not destroyed. Initialisation runs at most once: \<open>Init\<close>
  on a started pool returns with the state as it was, and a successful \<open>Init\<close> leaves
  the pool started, so that a second call has no effect.
\<close>

theorem fatal_conditions:
  "Use Create d (DestroyPool s) = Inl (AssertionFailed ''Object pool is destroyed'')
   \<and> (is_destroyed s \<longrightarrow> Use Create d s = Inl (AssertionFailed ''Object pool is destroyed''))
   \<and> (\<not> is_started s \<and> is_destroyed s \<longrightarrow>
        Init Create s = Inl (AssertionFailed ''Object pool is destroyed''))
   \<and> (\<not> is_started s \<and> \<not> is_destroyed s \<and> initial_pool_size s \<le> 0 \<longrightarrow>
        Init Create s = Inl (AssertionFailed ''Initial pool size should be greater than 0'')
        \<and> Use Create d s = Inl (AssertionFailed ''Initial pool size should be greater than 0''))
   \<and> (\<not> is_started s \<and> \<not> is_destroyed s \<and> 0 < initial_pool_size s \<longrightarrow>
        (\<exists>s'. Init Create s = Inr s' \<and> is_started s' \<and> \<not> is_destroyed s'))
   \<and> (is_started s \<longrightarrow> Init Create s = Inr s)
   \<and> (\<forall>s'. Init Create s = Inr s' \<longrightarrow> is_started s' \<and> Init Create s' = Inr s')"
proof -
  have a: "Use Create d (DestroyPool s) = Inl (AssertionFailed ''Object pool is destroyed'')"
    by (rule Use_destroyed) (rule is_destroyed_DestroyPool)
  have b: "is_destroyed s \<longrightarrow> Use Create d s = Inl (AssertionFailed ''Object pool is destroyed'')"
    by (simp add: Use_destroyed)
  have c: "\<not> is_started s \<and> is_destroyed s \<longrightarrow>
        Init Create s = Inl (AssertionFailed ''Object pool is destroyed'')"
    by (simp add: Init_def)
  have d: "\<not> is_started s \<and> \<not> is_destroyed s \<and> initial_pool_size s \<le> 0 \<longrightarrow>
        Init Create s = Inl (AssertionFailed ''Initial pool size should be greater than 0'')
        \<and> Use Create d s = Inl (AssertionFailed ''Initial pool size should be greater than 0'')"
    by (simp add: Init_def Use_def)
  have e: "is_started s \<longrightarrow> Init Create s = Inr s"
    by (simp add: Init_def)
  have f: "\<forall>s'. Init Create s = Inr s' \<longrightarrow> is_started s' \<and> Init Create s' = Inr s'"
  proof (intro allI impI conjI)
    fix s' assume i: "Init Create s = Inr s'"
    then show "is_started s'" by (rule Init_started_after)
    then show "Init Create s' = Inr s'" by (simp add: Init_def)
  qed
  have g: "\<not> is_started s \<and> \<not> is_destroyed s \<and> 0 < initial_pool_size s \<longrightarrow>
        (\<exists>s'. Init Create s = Inr s' \<and> is_started s' \<and> \<not> is_destroyed s')"
    by (simp add: Init_not_started)
  from a b c d e f g show ?thesis by blast
qed

theorem fatal_conditions_witness:
  "is_destroyed (DestroyPool (new_ObjectPool 1 Fixed :: (nat, string) ObjectPool))
   \<and> \<not> is_started (DestroyPool (new_ObjectPool 1 Fixed :: (nat, string) ObjectPool))
   \<and> Use id ''A'' (DestroyPool (new_ObjectPool 1 Fixed :: (nat, string) ObjectPool))
       = Inl (AssertionFailed ''Object pool is destroyed'')
   \<and> Init id (DestroyPool (new_ObjectPool 1 Fixed :: (nat, string) ObjectPool))
       = Inl (AssertionFailed ''Object pool is destroyed'')
   \<and> \<not> is_started (new_ObjectPool 0 Fixed :: (nat, string) ObjectPool)
   \<and> \<not> is_destroyed (new_ObjectPool 0 Fixed :: (nat, string) ObjectPool)
   \<and> initial_pool_size (new_ObjectPool 0 Fixed :: (nat, string) ObjectPool) \<le> 0
   \<and> Init id (new_ObjectPool 0 Fixed :: (nat, string) ObjectPool)
       = Inl (AssertionFailed ''Initial pool size should be greater than 0'')
   \<and> Use id ''A'' (new_ObjectPool 0 Fixed :: (nat, string) ObjectPool)
       = Inl (AssertionFailed ''Initial pool size should be greater than 0'')
   \<and> \<not> is_started (new_ObjectPool (5 / 2) Fixed :: (nat, string) ObjectPool)
   \<and> \<not> is_destroyed (new_ObjectPool (5 / 2) Fixed :: (nat, string) ObjectPool)
   \<and> 0 < initial_pool_size (new_ObjectPool (5 / 2) Fixed :: (nat, string) ObjectPool)
   \<and> (\<exists>s'. Init id (new_ObjectPool (5 / 2) Fixed :: (nat, string) ObjectPool) = Inr s'
          \<and> is_started s' \<and> \<not> is_destroyed s')
   \<and> Init id (new_ObjectPool 1 Fixed :: (nat, string) ObjectPool)
       = Inr (running_pool 1 Fixed [] [0] [0 \<mapsto> 0] [pool_instance 0 False 0 0] [CreateCall 0])
   \<and> is_started (running_pool 1 Fixed [] [0] [0 \<mapsto> 0] [pool_instance 0 False 0 0]
        [CreateCall 0 :: (nat, string) hook_call])
   \<and> Init id (running_pool 1 Fixed [] [0] [0 \<mapsto> 0] [pool_instance 0 False 0 0] [CreateCall 0])
       = Inr (running_pool 1 Fixed [] [0] [0 \<mapsto> 0] [pool_instance 0 False 0 0]
           [CreateCall 0 :: (nat, string) hook_call])"
proof -
  let ?D = "DestroyPool (new_ObjectPool 1 Fixed :: (nat, string) ObjectPool)"
  let ?Z = "new_ObjectPool 0 Fixed :: (nat, string) ObjectPool"
  let ?R = "running_pool 1 Fixed [] [0] [0 \<mapsto> 0] [pool_instance 0 False 0 0]
              [CreateCall 0 :: (nat, string) hook_call]"
  have d: "is_destroyed ?D" "\<not> is_started ?D"
    by (simp_all add: DestroyPool_new) (simp add: new_ObjectPool_def)
  have z: "\<not> is_started ?Z" "\<not> is_destroyed ?Z" "initial_pool_size ?Z \<le> 0"
    by (simp_all add: new_ObjectPool_def)
  have i: "Init id (new_ObjectPool 1 Fixed :: (nat, string) ObjectPool) = Inr ?R"
    by (rule Init_new_1)
  from d fatal_conditions [of id "''A''" ?D]
  have 1: "Use id ''A'' ?D = Inl (AssertionFailed ''Object pool is destroyed'')"
    and 2: "Init id ?D = Inl (AssertionFailed ''Object pool is destroyed'')"
    by blast+
  from z fatal_conditions [of id "''A''" ?Z]
  have 3: "Init id ?Z = Inl (AssertionFailed ''Initial pool size should be greater than 0'')"
    and 4: "Use id ''A'' ?Z = Inl (AssertionFailed ''Initial pool size should be greater than 0'')"
    by blast+
  from i fatal_conditions [of id "''A''" "new_ObjectPool 1 Fixed :: (nat, string) ObjectPool"]
  have 5: "is_started ?R" and 6: "Init id ?R = Inr ?R"
    by blast+
  let ?H = "new_ObjectPool (5 / 2) Fixed :: (nat, string) ObjectPool"
  have p: "\<not> is_started ?H" "\<not> is_destroyed ?H" "0 < initial_pool_size ?H"
    by (simp_all add: new_ObjectPool_def)
  from p fatal_conditions [of id "''A''" ?H]
  have 7: "\<exists>s'. Init id ?H = Inr s' \<and> is_started s' \<and> \<not> is_destroyed s'"
    by blast
  from d z i p 1 2 3 4 5 6 7 show ?thesis by blast
qed

text \<open>
  Claim C9. \<open>DestroyPool\<close> is idempotent: a second call leaves the state, and with it the
  log of \<open>Dispose\<close> and \<open>Destroy\<close> calls, exactly as the first call left it.
\<close>

theorem DestroyPool_idempotent:
  "DestroyPool (DestroyPool s) = DestroyPool s
   \<and> hooks (DestroyPool (DestroyPool s)) = hooks (DestroyPool s)"
proof -
  have "is_destroyed (DestroyPool s)" by (rule is_destroyed_DestroyPool)
  then have "DestroyPool (DestroyPool s) = DestroyPool s"
    by (subst DestroyPool_def) simp
  then show ?thesis by simp
qed

text \<open>
  Claim C1. A disposal signal \<open>(cid, use_id)\<close> that is not valid (the Registry does not
  hold \<open>cid\<close>, or the stored \<open>UseId\<close> of that instance differs from \<open>use_id\<close>)
  leaves the whole state as it is, in every state: no \<open>Dispose\<close> and no \<open>Destroy\<close> call
  is logged and the Free List, the Used List and the Registry are unchanged. The closure
  given to \<open>Start\<close> likewise calls no hook and changes no list once the use id it
  captured is no longer the instance's. In particular, in a reachable state with the
  listener connected, once a valid signal has been processed (the generation of its
  instance advances by one) and a \<open>Use\<close> has followed, the same signal arriving again is
  stale and changes nothing. The same holds when the instance was disposed by the forced
  recycle of a Fixed pool: after that \<open>Use\<close> the generation has advanced by one, and both
  the signal and the closure of the previous generation change no list and call no hook.
\<close>

theorem stale_disposal_ignored:
  "(\<not> valid_signal s cid use_id \<longrightarrow>
      dispose_listener cid use_id s = s \<and> Fire cid use_id s = s)
   \<and> (UseId (heap s ! r) \<noteq> use_id \<longrightarrow>
        hooks (dispose r use_id s) = hooks s
        \<and> instances_list (dispose r use_id s) = instances_list s
        \<and> used_instances_list (dispose r use_id s) = used_instances_list s
        \<and> instances_map (dispose r use_id s) = instances_map s
        \<and> heap (dispose r use_id s) = heap s)
   \<and> (reachable Create s \<and> dispose_event s = Connected \<and> valid_signal s cid use_id \<longrightarrow>
        (\<forall>i. instances_map s cid = Some i \<longrightarrow>
               UseId (heap (Fire cid use_id s) ! i) = Suc use_id)
        \<and> (\<forall>d s2. Use Create d (Fire cid use_id s) = Inr s2 \<longrightarrow>
               \<not> valid_signal s2 cid use_id
               \<and> dispose_listener cid use_id s2 = s2 \<and> Fire cid use_id s2 = s2))
   \<and> (reachable Create s \<and> is_started s \<and> \<not> is_destroyed s
        \<and> object_pool_type s = Fixed \<and> instances_list s = []
        \<and> used_instances_list s = r # rest
        \<and> instances_map s cid = Some r \<and> UseId (heap s ! r) = use_id \<longrightarrow>
        (\<forall>d s2. Use Create d s = Inr s2 \<longrightarrow>
               UseId (heap s2 ! r) = Suc use_id
               \<and> \<not> valid_signal s2 cid use_id
               \<and> dispose_listener cid use_id s2 = s2 \<and> Fire cid use_id s2 = s2
               \<and> hooks (dispose r use_id s2) = hooks s2))"
proof (intro conjI impI)
  assume "\<not> valid_signal s cid use_id"
  then show "dispose_listener cid use_id s = s" by (rule dispose_listener_stale)
  then show "Fire cid use_id s = s" by (simp add: Fire_def)
next
  assume stale: "UseId (heap s ! r) \<noteq> use_id"
  then show "hooks (dispose r use_id s) = hooks s"
    and "instances_list (dispose r use_id s) = instances_list s"
    and "used_instances_list (dispose r use_id s) = used_instances_list s"
    and "instances_map (dispose r use_id s) = instances_map s"
    and "heap (dispose r use_id s) = heap s"
    by (simp_all add: dispose_def)
next
  assume h: "reachable Create s \<and> dispose_event s = Connected \<and> valid_signal s cid use_id"
  then obtain i where i: "instances_map s cid = Some i" and u: "UseId (heap s ! i) = use_id"
    by (auto simp: valid_signal_def split: option.splits)
  from h have "reachable Create s" by simp
  then have "registry_ok s" by (rule reachable_registry_ok)
  with i have len: "i < length (heap s)" and below: "cid < creation_id s"
    by (auto simp: registry_ok_def)
  from h i u have fire: "Fire cid use_id s = FreeInstance i s"
    by (simp add: Fire_valid)
  have adv: "UseId (heap (Fire cid use_id s) ! i) = Suc use_id"
    using len u by (simp add: fire FreeInstance_UseId)
  show "\<forall>j. instances_map s cid = Some j \<longrightarrow> UseId (heap (Fire cid use_id s) ! j) = Suc use_id"
    using i adv by simp
  show "\<forall>d s2. Use Create d (Fire cid use_id s) = Inr s2 \<longrightarrow>
          \<not> valid_signal s2 cid use_id
          \<and> dispose_listener cid use_id s2 = s2 \<and> Fire cid use_id s2 = s2"
  proof (intro allI impI)
    fix d s2 assume use: "Use Create d (Fire cid use_id s) = Inr s2"
    then have g: "generations_advance (FreeInstance i s) s2"
      unfolding fire by (rule advance_Use)
    have stale: "\<not> valid_signal s2 cid use_id"
    proof
      assume "valid_signal s2 cid use_id"
      then obtain j where j: "instances_map s2 cid = Some j" and uj: "UseId (heap s2 ! j) = use_id"
        by (auto simp: valid_signal_def split: option.splits)
      from g j below have "instances_map (FreeInstance i s) cid = Some j"
        by (simp add: generations_advance_def FreeInstance_creation_id)
      then have "instances_map s cid = Some j" by (rule FreeInstance_instances_map)
      with i have ji: "j = i" by simp
      from g len have "UseId (heap (FreeInstance i s) ! i) \<le> UseId (heap s2 ! i)"
        by (simp add: generations_advance_def FreeInstance_length_heap)
      with adv uj ji show False by (simp add: fire)
    qed
    then have "dispose_listener cid use_id s2 = s2" by (rule dispose_listener_stale)
    with stale show "\<not> valid_signal s2 cid use_id
          \<and> dispose_listener cid use_id s2 = s2 \<and> Fire cid use_id s2 = s2"
      by (simp add: Fire_def)
  qed
next
  assume h: "reachable Create s \<and> is_started s \<and> \<not> is_destroyed s
        \<and> object_pool_type s = Fixed \<and> instances_list s = []
        \<and> used_instances_list s = r # rest
        \<and> instances_map s cid = Some r \<and> UseId (heap s ! r) = use_id"
  then have "reachable Create s" by simp
  then have "registry_ok s" by (rule reachable_registry_ok)
  with h have len: "r < length (heap s)" by (auto simp: registry_ok_def)
  show "\<forall>d s2. Use Create d s = Inr s2 \<longrightarrow>
               UseId (heap s2 ! r) = Suc use_id
               \<and> \<not> valid_signal s2 cid use_id
               \<and> dispose_listener cid use_id s2 = s2 \<and> Fire cid use_id s2 = s2
               \<and> hooks (dispose r use_id s2) = hooks s2"
  proof (intro allI impI)
    fix d s2 assume use: "Use Create d s = Inr s2"
    have "Use Create d s =
       Inr (s\<lparr> used_instances_list := rest @ [r],
               heap := (heap s)[r := (heap s ! r)
                          \<lparr> UseId := Suc (UseId (heap s ! r)), IsActive := True \<rparr>],
               hooks := hooks s @
                 [DisposeCall (Value (heap s ! r)),
                  StartCall (Value (heap s ! r)) d r (Suc (UseId (heap s ! r)))] \<rparr>)"
      using h len by (intro Use_fixed_recycle) simp_all
    with use have s2: "s2 = s\<lparr> used_instances_list := rest @ [r],
               heap := (heap s)[r := (heap s ! r)
                          \<lparr> UseId := Suc (UseId (heap s ! r)), IsActive := True \<rparr>],
               hooks := hooks s @
                 [DisposeCall (Value (heap s ! r)),
                  StartCall (Value (heap s ! r)) d r (Suc (UseId (heap s ! r)))] \<rparr>"
      by simp
    have u: "UseId (heap s2 ! r) = Suc use_id"
      using h len by (simp add: s2)
    have m: "instances_map s2 cid = Some r"
      using h by (simp add: s2)
    from u m have stale: "\<not> valid_signal s2 cid use_id"
      by (simp add: valid_signal_def)
    then have l: "dispose_listener cid use_id s2 = s2" by (rule dispose_listener_stale)
    from u have "hooks (dispose r use_id s2) = hooks s2" by (simp add: dispose_def)
    with u stale l show "UseId (heap s2 ! r) = Suc use_id
               \<and> \<not> valid_signal s2 cid use_id
               \<and> dispose_listener cid use_id s2 = s2 \<and> Fire cid use_id s2 = s2
               \<and> hooks (dispose r use_id s2) = hooks s2"
      by (simp add: Fire_def)
  qed
qed

theorem stale_disposal_ignored_witness:
  "reachable id (running_pool 1 Unbounded [0] [] [0 \<mapsto> 0] [pool_instance 0 True 0 0]
       [CreateCall 0, StartCall 0 ''A'' 0 0] :: (nat, string) ObjectPool)
   \<and> valid_signal (running_pool 1 Unbounded [0] [] [0 \<mapsto> 0] [pool_instance 0 True 0 0]
       [CreateCall 0, StartCall 0 ''A'' 0 0] :: (nat, string) ObjectPool) 0 0
   \<and> Fire 0 0 (running_pool 1 Unbounded [0] [] [0 \<mapsto> 0] [pool_instance 0 True 0 0]
       [CreateCall 0, StartCall 0 ''A'' 0 0] :: (nat, string) ObjectPool)
      = running_pool 1 Unbounded [] [0] [0 \<mapsto> 0] [pool_instance 0 False 0 1]
          [CreateCall 0, StartCall 0 ''A'' 0 0, DisposeCall 0]
   \<and> Use id ''B'' (running_pool 1 Unbounded [] [0] [0 \<mapsto> 0] [pool_instance 0 False 0 1]
          [CreateCall 0, StartCall 0 ''A'' 0 0, DisposeCall 0])
      = Inr (running_pool 1 Unbounded [0] [] [0 \<mapsto> 0] [pool_instance 0 True 0 1]
          [CreateCall 0, StartCall 0 ''A'' 0 0, DisposeCall 0, StartCall 0 ''B'' 0 1])
   \<and> \<not> valid_signal (running_pool 1 Unbounded [0] [] [0 \<mapsto> 0] [pool_instance 0 True 0 1]
          [CreateCall 0, StartCall 0 ''A'' 0 0, DisposeCall 0, StartCall 0 ''B'' 0 1]
          :: (nat, string) ObjectPool) 0 0
   \<and> Fire 0 0 (running_pool 1 Unbounded [0] [] [0 \<mapsto> 0] [pool_instance 0 True 0 1]
          [CreateCall 0, StartCall 0 ''A'' 0 0, DisposeCall 0, StartCall 0 ''B'' 0 1]
          :: (nat, string) ObjectPool)
      = running_pool 1 Unbounded [0] [] [0 \<mapsto> 0] [pool_instance 0 True 0 1]
          [CreateCall 0, StartCall 0 ''A'' 0 0, DisposeCall 0, StartCall 0 ''B'' 0 1]
   \<and> hooks (dispose 0 0 (running_pool 1 Unbounded [0] [] [0 \<mapsto> 0] [pool_instance 0 True 0 1]
          [CreateCall 0, StartCall 0 ''A'' 0 0, DisposeCall 0, StartCall 0 ''B'' 0 1]
          :: (nat, string) ObjectPool))
      = [CreateCall 0, StartCall 0 ''A'' 0 0, DisposeCall 0, StartCall 0 ''B'' 0 1]
   \<and> reachable id (pool2_AB Fixed)
   \<and> valid_signal (pool2_AB Fixed) 1 0
   \<and> Use id ''C'' (pool2_AB Fixed) = Inr pool2_ABC
   \<and> \<not> valid_signal pool2_ABC 1 0
   \<and> Fire 1 0 pool2_ABC = pool2_ABC
   \<and> hooks (dispose 1 0 pool2_ABC) = hooks pool2_ABC"
proof -
  let ?s1 = "running_pool 1 Unbounded [0] [] [0 \<mapsto> 0] [pool_instance 0 True 0 0]
       [CreateCall 0, StartCall 0 ''A'' 0 0] :: (nat, string) ObjectPool"
  let ?s2 = "running_pool 1 Unbounded [] [0] [0 \<mapsto> 0] [pool_instance 0 False 0 1]
          [CreateCall 0, StartCall 0 ''A'' 0 0, DisposeCall 0] :: (nat, string) ObjectPool"
  let ?s3 = "running_pool 1 Unbounded [0] [] [0 \<mapsto> 0] [pool_instance 0 True 0 1]
          [CreateCall 0, StartCall 0 ''A'' 0 0, DisposeCall 0, StartCall 0 ''B'' 0 1]
          :: (nat, string) ObjectPool"
  have r: "reachable id ?s1"
    by (rule after_Use [OF constructed Use_new_1])
  have c: "dispose_event ?s1 = Connected" by (simp add: running_pool_def)
  have v: "valid_signal ?s1 0 0" by (simp add: pool_defs)
  have f: "Fire 0 0 ?s1 = ?s2" by (simp add: pool_defs)
  have u: "Use id ''B'' ?s2 = Inr ?s3" by (simp add: pool_defs)
  have n: "UseId (heap ?s3 ! 0) \<noteq> 0" by (simp add: pool_defs)
  have h: "hooks ?s3 = [CreateCall 0, StartCall 0 ''A'' 0 0, DisposeCall 0, StartCall 0 ''B'' 0 1]"
    by (simp add: running_pool_def)
  from r c v have "\<forall>d s2. Use id d (Fire 0 0 ?s1) = Inr s2 \<longrightarrow>
               \<not> valid_signal s2 0 0 \<and> dispose_listener 0 0 s2 = s2 \<and> Fire 0 0 s2 = s2"
    using stale_disposal_ignored [of ?s1 0 0 0 id] by blast
  with u have 1: "\<not> valid_signal ?s3 0 0" and 2: "Fire 0 0 ?s3 = ?s3"
    unfolding f by blast+
  from n have 3: "hooks (dispose 0 0 ?s3) = hooks ?s3"
    using stale_disposal_ignored [of ?s3 0 0 0 id] by blast
  have r4: "reachable id (pool2_AB Fixed)"
    by (rule after_Use [OF after_Use [OF constructed Use_pool2_A] Use_pool2_AB])
  have p: "is_started (pool2_AB Fixed)" "\<not> is_destroyed (pool2_AB Fixed)"
    "object_pool_type (pool2_AB Fixed) = Fixed" "instances_list (pool2_AB Fixed) = []"
    "used_instances_list (pool2_AB Fixed) = 1 # [0]" "instances_map (pool2_AB Fixed) 1 = Some 1"
    "UseId (heap (pool2_AB Fixed) ! 1) = 0"
    by (simp_all add: pool2_AB_def running_pool_def pool_instance_def)
  have v4: "valid_signal (pool2_AB Fixed) 1 0"
    unfolding valid_signal_def p(6) using p(7) by simp
  from r4 p have "\<forall>d s2. Use id d (pool2_AB Fixed) = Inr s2 \<longrightarrow>
               UseId (heap s2 ! 1) = Suc 0
               \<and> \<not> valid_signal s2 1 0
               \<and> dispose_listener 1 0 s2 = s2 \<and> Fire 1 0 s2 = s2
               \<and> hooks (dispose 1 0 s2) = hooks s2"
    using stale_disposal_ignored [of "pool2_AB Fixed" 1 0 1 id "[0]"] by blast
  with Use_pool2_ABC have 4: "\<not> valid_signal pool2_ABC 1 0"
    and 5: "Fire 1 0 pool2_ABC = pool2_ABC"
    and 6: "hooks (dispose 1 0 pool2_ABC) = hooks pool2_ABC"
    by blast+
  from r v f u 1 2 3 h r4 v4 Use_pool2_ABC 4 5 6 show ?thesis by simp
qed




text \<open>
  Claim C4, at a concrete input. A pool of size 3 (any strategy; here Unbounded) is used
  once and then destroyed. The Used List holds instance 2, the Free List instances 0 and
  1. \<open>DestroyPool\<close> calls \<open>Dispose\<close> then \<open>Destroy\<close> for instance 2 and \<open>Destroy\<close> for instance
  0, and then stops: removing instance 0 from the Free List while walking it moves
  instance 1 to the position already visited. Instance 1 gets no \<open>Destroy\<close> call and
  stays in the Registry of the destroyed pool.
\<close>

theorem DestroyPool_skips_free_instance:
  "Use id ''A'' (new_ObjectPool 3 Unbounded) =
     Inr (running_pool 3 Unbounded [2] [0, 1] [0 \<mapsto> 0, 1 \<mapsto> 1, 2 \<mapsto> 2]
            [pool_instance 0 False 0 0, pool_instance 1 False 1 0, pool_instance 2 True 2 0]
            [CreateCall 0, CreateCall 1, CreateCall 2, StartCall 2 ''A'' 2 0])
   \<and> hooks (DestroyPool (running_pool 3 Unbounded [2] [0, 1] [0 \<mapsto> 0, 1 \<mapsto> 1, 2 \<mapsto> 2]
            [pool_instance 0 False 0 0, pool_instance 1 False 1 0, pool_instance 2 True 2 0]
            [CreateCall 0, CreateCall 1, CreateCall 2, StartCall 2 ''A'' 2 0
               :: (nat, string) hook_call]))
       = [CreateCall 0, CreateCall 1, CreateCall 2, StartCall 2 ''A'' 2 0,
          DisposeCall 2, DestroyCall 2, DestroyCall 0]
   \<and> instances_map (DestroyPool (running_pool 3 Unbounded [2] [0, 1]
            [0 \<mapsto> 0, 1 \<mapsto> 1, 2 \<mapsto> 2]
            [pool_instance 0 False 0 0, pool_instance 1 False 1 0, pool_instance 2 True 2 0]
            [CreateCall 0, CreateCall 1, CreateCall 2, StartCall 2 ''A'' 2 0
               :: (nat, string) hook_call])) 1 = Some 1
   \<and> instances_list (DestroyPool (running_pool 3 Unbounded [2] [0, 1]
            [0 \<mapsto> 0, 1 \<mapsto> 1, 2 \<mapsto> 2]
            [pool_instance 0 False 0 0, pool_instance 1 False 1 0, pool_instance 2 True 2 0]
            [CreateCall 0, CreateCall 1, CreateCall 2, StartCall 2 ''A'' 2 0
               :: (nat, string) hook_call])) = []
   \<and> used_instances_list (DestroyPool (running_pool 3 Unbounded [2] [0, 1]
            [0 \<mapsto> 0, 1 \<mapsto> 1, 2 \<mapsto> 2]
            [pool_instance 0 False 0 0, pool_instance 1 False 1 0, pool_instance 2 True 2 0]
            [CreateCall 0, CreateCall 1, CreateCall 2, StartCall 2 ''A'' 2 0
               :: (nat, string) hook_call])) = []
   \<and> is_destroyed (DestroyPool (running_pool 3 Unbounded [2] [0, 1]
            [0 \<mapsto> 0, 1 \<mapsto> 1, 2 \<mapsto> 2]
            [pool_instance 0 False 0 0, pool_instance 1 False 1 0, pool_instance 2 True 2 0]
            [CreateCall 0, CreateCall 1, CreateCall 2, StartCall 2 ''A'' 2 0
               :: (nat, string) hook_call]))"
  by (simp add: Use_new_3)
     (simp add: DestroyPool_def destroy_used_loop.simps destroy_free_loop.simps pool_defs)

text \<open>
  Claim C5. A Fixed pool of size \<open>N > 0\<close> is used \<open>N\<close> times with no disposal in
  between, then once more. However many uses a new Fixed pool serves, its Registry never
  holds more than \<open>N\<close> instances. The first use allocates the instance \<open>N - 1\<close>; after
  \<open>N\<close> uses the Free List is empty and that instance is the front of the Used List, with
  \<open>UseId\<close> 0. The next use calls \<open>Dispose\<close> on its value and then \<open>Start\<close> on the same
  value with use id 1, in this order and with no other hook call; the instance's \<open>UseId\<close>
  is 1, it is active, it has moved to the back of the Used List, and the Registry and
  the creation counter are as before.
\<close>

theorem fixed_recycles_oldest:
  fixes Create :: "nat \<Rightarrow> 'v" and ds :: "'d list"
  assumes "0 < N" and "length ds = nat N"
  shows "\<exists>s1 sN s'.
      Use Create (hd ds) (new_ObjectPool (real_of_int N) Fixed) = Inr s1
    \<and> used_instances_list s1 = [nat N - 1]
    \<and> last (hooks s1) = StartCall (Create (nat N - 1)) (hd ds) (nat N - 1) 0
    \<and> uses Create ds (new_ObjectPool (real_of_int N) Fixed) = Inr sN
    \<and> instances_list sN = []
    \<and> length (used_instances_list sN) = nat N
    \<and> hd (used_instances_list sN) = nat N - 1
    \<and> CreationId (heap sN ! (nat N - 1)) = nat N - 1
    \<and> UseId (heap sN ! (nat N - 1)) = 0
    \<and> Use Create d sN = Inr s'
    \<and> hooks s' = hooks sN @
          [DisposeCall (Create (nat N - 1)), StartCall (Create (nat N - 1)) d (nat N - 1) 1]
    \<and> UseId (heap s' ! (nat N - 1)) = 1
    \<and> IsActive (heap s' ! (nat N - 1))
    \<and> used_instances_list s' = tl (used_instances_list sN) @ [nat N - 1]
    \<and> instances_map s' = instances_map sN
    \<and> creation_id s' = creation_id sN
    \<and> (\<forall>(ds' :: 'd list) s. uses Create ds' (new_ObjectPool (real_of_int N) Fixed) = Inr s \<longrightarrow>
           card (dom (instances_map s)) \<le> nat N)"
proof -
  let ?i = "initialised Create N Fixed :: ('v, 'd) ObjectPool"
  from assms(1) obtain m where m: "nat N = Suc m" by (cases "nat N") auto
  define s1 where "s1 = ?i\<lparr> instances_list := [0..<nat N - 1],
              used_instances_list := [nat N - 1],
              heap := activate [nat N - 1] (heap ?i),
              hooks := hooks ?i @ [StartCall (Create (nat N - 1)) (hd ds) (nat N - 1) 0] \<rparr>"
  define sN where "sN = ?i\<lparr> instances_list := [],
              used_instances_list := rev [0..<nat N],
              heap := activate (rev [0..<nat N]) (heap ?i),
              hooks := hooks ?i @
                map (\<lambda>(r, d). StartCall (Create r) d r 0) (zip (rev [0..<nat N]) ds) \<rparr>"
  define s' where "s' = sN\<lparr> used_instances_list := rev [0..<m] @ [m],
             heap := (heap sN)[m := (heap sN ! m)
                        \<lparr> UseId := Suc (UseId (heap sN ! m)), IsActive := True \<rparr>],
             hooks := hooks sN @
               [DisposeCall (Value (heap sN ! m)),
                StartCall (Value (heap sN ! m)) d m (Suc (UseId (heap sN ! m)))] \<rparr>"
  have im: "heap ?i ! m = pool_instance (Create m) False m 0"
    unfolding initialised_fields m by (simp add: nth_append)
  have a1: "Use Create (hd ds) (new_ObjectPool (real_of_int N) Fixed) = Inr s1"
    unfolding s1_def using assms(1) by (rule Use_new_first)
  have aN: "uses Create ds (new_ObjectPool (real_of_int N) Fixed) = Inr sN"
    unfolding sN_def using assms by (rule uses_new_all)
  have len: "length (heap sN) = Suc m"
    by (simp add: sN_def length_activate initialised_fields m)
  have v: "Value (heap sN ! m) = Create m"
    unfolding sN_def using activate_same [of Value "rev [0..<nat N]" "heap ?i" m]
    by (simp add: im pool_instance_def)
  have u: "UseId (heap sN ! m) = 0"
    unfolding sN_def using activate_same [of UseId "rev [0..<nat N]" "heap ?i" m]
    by (simp add: im pool_instance_def)
  have c: "CreationId (heap sN ! m) = m"
    unfolding sN_def using activate_same [of CreationId "rev [0..<nat N]" "heap ?i" m]
    by (simp add: im pool_instance_def)
  have a': "Use Create d sN = Inr s'"
    unfolding s'_def
    by (rule Use_fixed_recycle) (simp_all add: sN_def initialised_fields m length_activate)
  have reg: "\<forall>(ds' :: 'd list) s. uses Create ds' (new_ObjectPool (real_of_int N) Fixed) = Inr s \<longrightarrow>
           card (dom (instances_map s)) \<le> nat N"
    using uses_new_registry [OF assms(1), of Fixed Create] by blast
  have p1: "used_instances_list s1 = [nat N - 1]"
    and p2: "last (hooks s1) = StartCall (Create (nat N - 1)) (hd ds) (nat N - 1) 0"
    by (simp_all add: s1_def)
  have p3: "instances_list sN = []" and p4: "length (used_instances_list sN) = nat N"
    and p5: "hd (used_instances_list sN) = nat N - 1"
    by (simp_all add: sN_def m)
  have p6: "hooks s' = hooks sN @
          [DisposeCall (Create (nat N - 1)), StartCall (Create (nat N - 1)) d (nat N - 1) 1]"
    and p7: "UseId (heap s' ! (nat N - 1)) = 1" and p8: "IsActive (heap s' ! (nat N - 1))"
    and p9: "used_instances_list s' = tl (used_instances_list sN) @ [nat N - 1]"
    and p10: "instances_map s' = instances_map sN" and p11: "creation_id s' = creation_id sN"
    using len by (simp_all add: s'_def m v u) (simp add: sN_def m)
  from a1 aN a' reg p1 p2 p3 p4 p5 p6 p7 p8 p9 p10 p11 c u m show ?thesis
    by (intro exI [of _ s1] exI [of _ sN] exI [of _ s']) simp
qed

theorem fixed_recycles_oldest_witness:
  "(0::int) < 2 \<and> length [''A'', ''B''] = nat 2
   \<and> uses id [''A'', ''B''] (new_ObjectPool 2 Fixed) = Inr (pool2_AB Fixed)
   \<and> hd (used_instances_list (pool2_AB Fixed)) = 1
   \<and> Use id ''C'' (pool2_AB Fixed) = Inr pool2_ABC
   \<and> hooks pool2_ABC = hooks (pool2_AB Fixed) @ [DisposeCall 1, StartCall 1 ''C'' 1 1]
   \<and> UseId (heap (pool2_AB Fixed) ! 1) = 0
   \<and> UseId (heap pool2_ABC ! 1) = 1
   \<and> used_instances_list pool2_ABC = tl (used_instances_list (pool2_AB Fixed)) @ [1]
   \<and> card (dom (instances_map pool2_ABC)) \<le> 2"
proof -
  have h: "(0::int) < 2" "length [''A'', ''B''] = nat 2" by simp_all
  from fixed_recycles_oldest [OF h, of id "''C''", unfolded of_int_numeral]
  obtain s1 sN s' where
    1: "uses id [''A'', ''B''] (new_ObjectPool 2 Fixed) = Inr sN"
    and 2: "hd (used_instances_list sN) = nat 2 - 1"
    and 3: "Use id ''C'' sN = Inr s'"
    and 4: "hooks s' = hooks sN @ [DisposeCall (id (nat 2 - 1)), StartCall (id (nat 2 - 1)) ''C'' (nat 2 - 1) 1]"
    and 5: "UseId (heap sN ! (nat 2 - 1)) = 0"
    and 6: "UseId (heap s' ! (nat 2 - 1)) = 1"
    and 7: "used_instances_list s' = tl (used_instances_list sN) @ [nat 2 - 1]"
    and 8: "\<forall>(ds' :: string list) s. uses id ds' (new_ObjectPool 2 Fixed) = Inr s \<longrightarrow>
           card (dom (instances_map s)) \<le> nat 2"
    by blast
  from 1 have sN: "sN = pool2_AB Fixed" unfolding uses_pool2_AB by simp
  from 3 have s': "s' = pool2_ABC" by (simp add: sN Use_pool2_ABC)
  have "uses id [''A'', ''B'', ''C''] (new_ObjectPool 2 Fixed) = Inr pool2_ABC"
    by (simp add: Use_pool2_A Use_pool2_AB Use_pool2_ABC)
  from 8 [rule_format, OF this] have 9: "card (dom (instances_map pool2_ABC)) \<le> 2" by simp
  from h 1 2 3 4 5 6 7 9 show ?thesis
    unfolding sN s' by simp
qed

text \<open>
  Claim C6. A FailSilent pool of size \<open>N > 0\<close> is used \<open>N\<close> times with no disposal in
  between: the Free List is then empty and the Registry holds \<open>N\<close> instances. The next
  \<open>Use\<close> returns normally with the state exactly as it was: no \<open>Start\<close> call is logged,
  the Registry and the creation counter are unchanged, and no error is raised.
\<close>

theorem failsilent_exhausted_use_is_noop:
  fixes Create :: "nat \<Rightarrow> 'v" and ds :: "'d list"
  assumes "0 < N" and "length ds = nat N"
  shows "\<exists>sN. uses Create ds (new_ObjectPool (real_of_int N) FailSilent) = Inr sN
    \<and> instances_list sN = []
    \<and> card (dom (instances_map sN)) = nat N
    \<and> Use Create d sN = Inr sN"
proof -
  let ?i = "initialised Create N FailSilent :: ('v, 'd) ObjectPool"
  define sN where "sN = ?i\<lparr> instances_list := [],
              used_instances_list := rev [0..<nat N],
              heap := activate (rev [0..<nat N]) (heap ?i),
              hooks := hooks ?i @
                map (\<lambda>(r, d). StartCall (Create r) d r 0) (zip (rev [0..<nat N]) ds) \<rparr>"
  have aN: "uses Create ds (new_ObjectPool (real_of_int N) FailSilent) = Inr sN"
    unfolding sN_def using assms by (rule uses_new_all)
  have e: "instances_list sN = []" by (simp add: sN_def)
  have "instances_map sN = instances_map ?i" by (simp add: sN_def)
  then have c: "card (dom (instances_map sN)) = nat N" by (simp add: dom_initialised)
  have u: "Use Create d sN = Inr sN"
    by (rule Use_failsilent) (simp_all add: sN_def initialised_fields)
  from aN e c u show ?thesis by blast
qed

theorem failsilent_exhausted_use_is_noop_witness:
  "(0::int) < 2 \<and> length [''A'', ''B''] = nat 2
   \<and> uses id [''A'', ''B''] (new_ObjectPool 2 FailSilent) = Inr (pool2_AB FailSilent)
   \<and> instances_list (pool2_AB FailSilent) = []
   \<and> card (dom (instances_map (pool2_AB FailSilent))) = 2
   \<and> Use id ''C'' (pool2_AB FailSilent) = Inr (pool2_AB FailSilent)"
proof -
  have h: "(0::int) < 2" "length [''A'', ''B''] = nat 2" by simp_all
  from failsilent_exhausted_use_is_noop [OF h, of id "''C''", unfolded of_int_numeral]
  obtain sN where 1: "uses id [''A'', ''B''] (new_ObjectPool 2 FailSilent) = Inr sN"
    and 2: "instances_list sN = []" and 3: "card (dom (instances_map sN)) = nat 2"
    and 4: "Use id ''C'' sN = Inr sN"
    by blast
  from 1 have sN: "sN = pool2_AB FailSilent" unfolding uses_pool2_AB by simp
  from h 1 2 3 4 show ?thesis unfolding sN by simp
qed

text \<open>
  Claim C8. For every strategy, the Registry of a newly constructed pool is empty. When
  the size \<open>N\<close> is positive, \<open>Init\<close> succeeds and leaves exactly \<open>N\<close> instances in
  the Registry; their values are the results of \<open>N\<close> calls of \<open>Create\<close>, no other hook is
  called, all of them are on the Free List and none on the Used List. A first \<open>Use\<close> on
  the new pool is \<open>Use\<close> on that initialised state, and after it the Registry still
  holds exactly \<open>N\<close> instances.
\<close>

theorem init_constructs_initial_pool:
  fixes Create :: "nat \<Rightarrow> 'v" and d :: 'd
  shows "card (dom (instances_map (new_ObjectPool (real_of_int N) t :: ('v, 'd) ObjectPool))) = 0
    \<and> (0 < N \<longrightarrow>
         Init Create (new_ObjectPool (real_of_int N) t) = Inr (initialised Create N t :: ('v, 'd) ObjectPool)
         \<and> card (dom (instances_map (initialised Create N t :: ('v, 'd) ObjectPool))) = nat N
         \<and> hooks (initialised Create N t :: ('v, 'd) ObjectPool)
             = map (\<lambda>k. CreateCall (Create k)) [0..<nat N]
         \<and> map Value (heap (initialised Create N t :: ('v, 'd) ObjectPool))
             = map Create [0..<nat N]
         \<and> instances_list (initialised Create N t :: ('v, 'd) ObjectPool) = [0..<nat N]
         \<and> used_instances_list (initialised Create N t :: ('v, 'd) ObjectPool) = []
         \<and> ran (instances_map (initialised Create N t :: ('v, 'd) ObjectPool))
             = set (instances_list (initialised Create N t :: ('v, 'd) ObjectPool))
         \<and> Use Create d (new_ObjectPool (real_of_int N) t) = Use Create d (initialised Create N t)
         \<and> (\<exists>s. Use Create d (new_ObjectPool (real_of_int N) t) = Inr s
                \<and> card (dom (instances_map s)) = nat N))"
proof (intro conjI impI)
  show "card (dom (instances_map (new_ObjectPool (real_of_int N) t :: ('v, 'd) ObjectPool))) = 0"
    by (simp add: new_ObjectPool_def)
next
  assume N: "0 < N"
  let ?i = "initialised Create N t :: ('v, 'd) ObjectPool"
  show "Init Create (new_ObjectPool (real_of_int N) t) = Inr ?i" using N by (rule Init_new)
  show "card (dom (instances_map ?i)) = nat N" by (simp add: dom_initialised)
  show "hooks ?i = map (\<lambda>k. CreateCall (Create k)) [0..<nat N]"
    by (simp add: initialised_fields)
  show "map Value (heap ?i) = map Create [0..<nat N]"
    by (simp add: initialised_fields pool_instance_def)
  show "instances_list ?i = [0..<nat N]" by (simp add: initialised_fields)
  show "used_instances_list ?i = []" by (simp add: initialised_fields)
  show "ran (instances_map ?i) = set (instances_list ?i)"
    unfolding initialised_fields by (rule ran_below)
  show "Use Create d (new_ObjectPool (real_of_int N) t) = Use Create d ?i" using N by (rule Use_new)
  have "Use Create d (new_ObjectPool (real_of_int N) t) =
     Inr (?i\<lparr> instances_list := [0..<nat N - 1],
              used_instances_list := [nat N - 1],
              heap := activate [nat N - 1] (heap ?i),
              hooks := hooks ?i @ [StartCall (Create (nat N - 1)) d (nat N - 1) 0] \<rparr>)"
    using N by (rule Use_new_first)
  moreover have "card (dom (instances_map (?i\<lparr> instances_list := [0..<nat N - 1],
              used_instances_list := [nat N - 1],
              heap := activate [nat N - 1] (heap ?i),
              hooks := hooks ?i @ [StartCall (Create (nat N - 1)) d (nat N - 1) 0] \<rparr>))) = nat N"
    by (simp add: dom_initialised)
  ultimately show "\<exists>s. Use Create d (new_ObjectPool (real_of_int N) t) = Inr s
      \<and> card (dom (instances_map s)) = nat N"
    by blast
qed

theorem init_constructs_initial_pool_witness:
  "(0::int) < 2
   \<and> Init id (new_ObjectPool 2 Unbounded)
       = Inr (running_pool 2 Unbounded [] [0, 1] [0 \<mapsto> 0, 1 \<mapsto> 1]
           [pool_instance 0 False 0 0, pool_instance 1 False 1 0]
           [CreateCall 0, CreateCall 1 :: (nat, string) hook_call])
   \<and> card (dom (instances_map (running_pool 2 Unbounded [] [0, 1] [0 \<mapsto> 0, 1 \<mapsto> 1]
           [pool_instance 0 False 0 0, pool_instance 1 False 1 0]
           [CreateCall 0, CreateCall 1 :: (nat, string) hook_call]))) = 2
   \<and> Use id ''A'' (new_ObjectPool 2 Unbounded) = Inr (pool2_A Unbounded)
   \<and> card (dom (instances_map (pool2_A Unbounded))) = 2"
proof -
  have h: "(0::int) < 2" by simp
  from init_constructs_initial_pool [of 2 Unbounded id "''A''", unfolded of_int_numeral] h
  have 1: "Init id (new_ObjectPool 2 Unbounded)
            = Inr (initialised id 2 Unbounded :: (nat, string) ObjectPool)"
    and 2: "card (dom (instances_map (initialised id 2 Unbounded :: (nat, string) ObjectPool)))
            = nat 2"
    and 3: "\<exists>s. Use id ''A'' (new_ObjectPool 2 Unbounded) = Inr s
                \<and> card (dom (instances_map s)) = nat 2"
    by blast+
  from 3 have 4: "card (dom (instances_map (pool2_A Unbounded))) = 2"
    unfolding Use_pool2_A by simp
  from h 1 2 4 show ?thesis
    unfolding initialised_2 by (simp add: Use_pool2_A)
qed



text \<open>
  Claim C2, as stated, at its own input: a Fixed pool of size 2. The first \<open>Use\<close>
  allocates the instance with \<open>CreationId\<close> 1, not 0, and the instance with \<open>CreationId\<close> 0
  stays inactive on the Free List. After the third \<open>Use\<close> the instance with \<open>CreationId\<close> 0
  still has \<open>UseId\<close> 0 and \<open>Dispose\<close> was never called on its value.
\<close>

theorem fixed_scenario_counterexample:
  "Use id ''A'' (new_ObjectPool 2 Fixed) = Inr (pool2_A Fixed)
   \<and> last (hooks (pool2_A Fixed)) = StartCall 1 ''A'' 1 0
   \<and> CreationId (heap (pool2_A Fixed) ! 1) = 1
   \<and> used_instances_list (pool2_A Fixed) = [1]
   \<and> \<not> IsActive (heap (pool2_A Fixed) ! 0)
   \<and> uses id [''A'', ''B'', ''C''] (new_ObjectPool 2 Fixed) = Inr pool2_ABC
   \<and> CreationId (heap pool2_ABC ! 0) = 0
   \<and> UseId (heap pool2_ABC ! 0) = 0
   \<and> DisposeCall 0 \<notin> set (hooks pool2_ABC)"
  by (simp add: Use_pool2_A Use_pool2_AB Use_pool2_ABC)
     (simp add: pool2_A_def pool2_ABC_def running_pool_def pool_instance_def)

text \<open>
  Claim C2, amended. For a Fixed pool of size 2, starting uninitialised: the first \<open>Use\<close>
  allocates the instance with \<open>CreationId\<close> 1 and \<open>UseId\<close> 0; the second \<open>Use\<close> allocates the
  instance with \<open>CreationId\<close> 0; the third \<open>Use\<close> force-disposes the instance with
  \<open>CreationId\<close> 1 (\<open>Dispose\<close> is called on its value and its \<open>UseId\<close> becomes 1), then
  reactivates it with \<open>UseId\<close> 1 and moves it to the back of the Used List, while the
  instance with \<open>CreationId\<close> 0 and the Registry are left unchanged.
\<close>

theorem fixed_scenario:
  "Use id ''A'' (new_ObjectPool 2 Fixed) = Inr (pool2_A Fixed)
   \<and> last (hooks (pool2_A Fixed)) = StartCall 1 ''A'' 1 0
   \<and> heap (pool2_A Fixed) ! 1 = pool_instance 1 True 1 0
   \<and> Use id ''B'' (pool2_A Fixed) = Inr (pool2_AB Fixed)
   \<and> last (hooks (pool2_AB Fixed)) = StartCall 0 ''B'' 0 0
   \<and> heap (pool2_AB Fixed) ! 0 = pool_instance 0 True 0 0
   \<and> used_instances_list (pool2_AB Fixed) = [1, 0]
   \<and> Use id ''C'' (pool2_AB Fixed) = Inr pool2_ABC
   \<and> hooks pool2_ABC = hooks (pool2_AB Fixed) @ [DisposeCall 1, StartCall 1 ''C'' 1 1]
   \<and> heap pool2_ABC ! 1 = pool_instance 1 True 1 1
   \<and> used_instances_list pool2_ABC = [0, 1]
   \<and> heap pool2_ABC ! 0 = heap (pool2_AB Fixed) ! 0
   \<and> instances_map pool2_ABC = instances_map (pool2_AB Fixed)"
  by (simp add: Use_pool2_A Use_pool2_AB Use_pool2_ABC)
     (simp add: pool2_A_def pool2_AB_def pool2_ABC_def running_pool_def)

end
